theory Spec2Isabelle
  imports Complex_Main
begin

section \<open>JavaScript numbers\<close>

text \<open>
  A JavaScript Number is an IEEE 754 binary64 value. The model keeps the three special
  values apart and carries a finite value as the rational it denotes. The two zeros are
  one value here: the program never divides by a computed zero, its comparisons treat
  both zeros alike, and a square is never negative, so the sign of a zero is not
  observable in it.
\<close>

datatype number = NaN | NegInfinity | Fin rat | Infinity

text \<open>Rounding to the nearest integer, a tie going to the even neighbour.\<close>

definition round_half_even :: "rat \<Rightarrow> int" where
  "round_half_even t =
     (let f = \<lfloor>t\<rfloor>; r = t - of_int f
      in if r < 1 / 2 then f else if 1 / 2 < r then f + 1 else if even f then f else f + 1)"

text \<open>The number of binary digits of a positive integer.\<close>

function bit_length :: "int \<Rightarrow> int" where
  "bit_length a = (if a \<le> 0 then 0 else 1 + bit_length (a div 2))"
  by pat_completeness auto
termination
  by (relation "measure nat") auto

declare bit_length.simps [simp del]

text \<open>The binary exponent of a positive rational: \<open>2 powi ilog2 q \<le> q < 2 powi (ilog2 q + 1)\<close>.\<close>

definition ilog2 :: "rat \<Rightarrow> int" where
  "ilog2 q =
     (let (a, b) = quotient_of q; k = bit_length a - bit_length b
      in if 2 powi k \<le> q then k else k - 1)"

text \<open>
  The spacing of the doubles around \<open>q\<close>: 53 significant bits in the normal range, the
  fixed spacing \<open>2 powi - 1074\<close> below \<open>2 powi - 1022\<close>.
\<close>

definition quantum :: "rat \<Rightarrow> rat" where
  "quantum q = 2 powi (max (ilog2 \<bar>q\<bar>) (- 1022) - 52)"

text \<open>The nearest multiple of the spacing, a tie going to the even multiple.\<close>

definition rounded :: "rat \<Rightarrow> rat" where
  "rounded q = of_int (round_half_even (q / quantum q)) * quantum q"

text \<open>
  The Number value of a real: round to nearest, ties to even, and a result of magnitude
  \<open>2 ^ 1024\<close> or more is an infinity.
\<close>

definition to_double :: "rat \<Rightarrow> number" where
  "to_double q =
     (let v = rounded q
      in if 2 ^ 1024 \<le> v then Infinity
         else if v \<le> - (2 ^ 1024) then NegInfinity
         else Fin v)"

text \<open>
  The finite doubles: at most 53 significant bits at an exponent from \<open>- 1022\<close> to 1023
  (the subnormal numbers are those at the exponent \<open>- 1022\<close> with fewer bits).
\<close>

definition is_double :: "rat \<Rightarrow> bool" where
  "is_double d =
     (\<exists>m e. \<bar>m\<bar> < 2 ^ 53 \<and> - 1022 \<le> e \<and> e \<le> 1023 \<and> d = of_int m * 2 powi (e - 52))"

text \<open>The integer square root: the largest \<open>r\<close> with \<open>r * r \<le> n\<close>.\<close>

function isqrt :: "int \<Rightarrow> int" where
  "isqrt n =
     (if n < 2 then n
      else let r = 2 * isqrt (n div 4) in if (r + 1) * (r + 1) \<le> n then r + 1 else r)"
  by pat_completeness auto
termination
  by (relation "measure nat") auto

declare isqrt.simps [simp del]

text \<open>The double nearest to the square root of a positive rational.\<close>

definition sqrt_double :: "rat \<Rightarrow> number" where
  "sqrt_double q =
     (let u = 2 powi (max (ilog2 q div 2) (- 1022) - 52);
          t = q / (u * u);
          m = isqrt \<lfloor>t\<rfloor>;
          h = of_int m + 1 / 2;
          m' = (if t < h * h then m else if h * h < t then m + 1
                else if even m then m else m + 1);
          v = of_int m' * u
      in if 2 ^ 1024 \<le> v then Infinity else Fin v)"

subsection \<open>Operators\<close>

text \<open>\<^verbatim>\<open>a - b\<close>\<close>

fun js_sub :: "number \<Rightarrow> number \<Rightarrow> number" where
  "js_sub NaN b = NaN"
| "js_sub a NaN = NaN"
| "js_sub Infinity Infinity = NaN"
| "js_sub NegInfinity NegInfinity = NaN"
| "js_sub Infinity b = Infinity"
| "js_sub NegInfinity b = NegInfinity"
| "js_sub a Infinity = NegInfinity"
| "js_sub a NegInfinity = Infinity"
| "js_sub (Fin a) (Fin b) = to_double (a - b)"

text \<open>\<^verbatim>\<open>a + b\<close>\<close>

fun js_add :: "number \<Rightarrow> number \<Rightarrow> number" where
  "js_add NaN b = NaN"
| "js_add a NaN = NaN"
| "js_add Infinity NegInfinity = NaN"
| "js_add NegInfinity Infinity = NaN"
| "js_add Infinity b = Infinity"
| "js_add NegInfinity b = NegInfinity"
| "js_add a Infinity = Infinity"
| "js_add a NegInfinity = NegInfinity"
| "js_add (Fin a) (Fin b) = to_double (a + b)"

text \<open>\<^verbatim>\<open>a / b\<close>; a zero divisor is read as the positive zero.\<close>

fun js_div :: "number \<Rightarrow> number \<Rightarrow> number" where
  "js_div NaN b = NaN"
| "js_div a NaN = NaN"
| "js_div Infinity (Fin b) = (if 0 \<le> b then Infinity else NegInfinity)"
| "js_div NegInfinity (Fin b) = (if 0 \<le> b then NegInfinity else Infinity)"
| "js_div Infinity b = NaN"
| "js_div NegInfinity b = NaN"
| "js_div (Fin a) Infinity = Fin 0"
| "js_div (Fin a) NegInfinity = Fin 0"
| "js_div (Fin a) (Fin b) =
     (if b = 0 then (if a = 0 then NaN else if 0 < a then Infinity else NegInfinity)
      else to_double (a / b))"

text \<open>
  \<^verbatim>\<open>a ** 2\<close> and \<^verbatim>\<open>Math.sqrt(a)\<close>. ECMAScript leaves the finite results of both to the
  implementation as approximations; the model takes the correctly rounded results, which
  is what IEEE 754 multiplication and square root return.
\<close>

fun js_square :: "number \<Rightarrow> number" where
  "js_square NaN = NaN"
| "js_square NegInfinity = Infinity"
| "js_square Infinity = Infinity"
| "js_square (Fin a) = to_double (a * a)"

fun Math_sqrt :: "number \<Rightarrow> number" where
  "Math_sqrt NaN = NaN"
| "Math_sqrt NegInfinity = NaN"
| "Math_sqrt Infinity = Infinity"
| "Math_sqrt (Fin a) = (if a < 0 then NaN else if a = 0 then Fin 0 else sqrt_double a)"

text \<open>\<^verbatim>\<open>a <= b\<close>, \<^verbatim>\<open>a < b\<close>, \<^verbatim>\<open>a >= b\<close> and \<^verbatim>\<open>a === b\<close>: false whenever an operand is NaN.\<close>

fun js_le :: "number \<Rightarrow> number \<Rightarrow> bool" where
  "js_le NaN b = False"
| "js_le a NaN = False"
| "js_le NegInfinity b = True"
| "js_le a Infinity = True"
| "js_le (Fin a) (Fin b) = (a \<le> b)"
| "js_le a b = False"

fun js_lt :: "number \<Rightarrow> number \<Rightarrow> bool" where
  "js_lt NaN b = False"
| "js_lt a NaN = False"
| "js_lt Infinity b = False"
| "js_lt a NegInfinity = False"
| "js_lt (Fin a) (Fin b) = (a < b)"
| "js_lt a b = True"

definition js_ge :: "number \<Rightarrow> number \<Rightarrow> bool" where
  "js_ge a b = js_le b a"

fun js_strict_eq :: "number \<Rightarrow> number \<Rightarrow> bool" where
  "js_strict_eq NaN b = False"
| "js_strict_eq a NaN = False"
| "js_strict_eq a b = (a = b)"

text \<open>\<^verbatim>\<open>Math.min(a, b)\<close> and \<^verbatim>\<open>Math.max(a, b)\<close>: NaN if an argument is NaN.\<close>

fun Math_min :: "number \<Rightarrow> number \<Rightarrow> number" where
  "Math_min NaN b = NaN"
| "Math_min a NaN = NaN"
| "Math_min a b = (if js_le a b then a else b)"

fun Math_max :: "number \<Rightarrow> number \<Rightarrow> number" where
  "Math_max NaN b = NaN"
| "Math_max a NaN = NaN"
| "Math_max a b = (if js_le a b then b else a)"

subsection \<open>\<^verbatim>\<open>toFixed(2)\<close> and \<^verbatim>\<open>parseFloat\<close>\<close>

text \<open>
  The string \<^verbatim>\<open>toFixed(2)\<close> returns, by what it denotes: \<open>FixedText neg n\<close> is the sign and
  the digits of \<open>n\<close> with the point before the last two; \<open>ShortestText q\<close> is the ordinary
  string of a number of magnitude \<open>10 ^ 21\<close> or more, which reads back as that number.
\<close>

datatype numeric_text =
  NaNText | InfinityText | NegInfinityText | FixedText bool int | ShortestText rat

fun toFixed2 :: "number \<Rightarrow> numeric_text" where
  "toFixed2 NaN = NaNText"
| "toFixed2 Infinity = InfinityText"
| "toFixed2 NegInfinity = NegInfinityText"
| "toFixed2 (Fin q) =
     (if 10 ^ 21 \<le> \<bar>q\<bar> then ShortestText q
      else FixedText (q < 0) \<lfloor>\<bar>q\<bar> * 100 + 1 / 2\<rfloor>)"

fun parseFloat :: "numeric_text \<Rightarrow> number" where
  "parseFloat NaNText = NaN"
| "parseFloat InfinityText = Infinity"
| "parseFloat NegInfinityText = NegInfinity"
| "parseFloat (FixedText neg n) = to_double ((if neg then - 1 else 1) * of_int n / 100)"
| "parseFloat (ShortestText q) = to_double q"

section \<open>The data of a request\<close>

text \<open>The fields \<^verbatim>\<open>x\<close> and \<^verbatim>\<open>y\<close> of a position.\<close>

record position =
  pos_x :: number
  pos_y :: number

text \<open>One entry of \<^verbatim>\<open>pose.keypoints\<close>.\<close>

record keypoint =
  part :: string
  position :: position
  score :: number

text \<open>The object \<^verbatim>\<open>kp\<close>: the positions stored under the names of the parts.\<close>

type_synonym keypoints = "string \<rightharpoonup> position"

text \<open>The object \<^verbatim>\<open>result\<close>, the judgment of the specification.\<close>

record judgement =
  closestHand :: string
  distance :: number
  accepted :: bool

text \<open>
  The early return of the handler when \<^verbatim>\<open>kp.nose\<close> is missing, under the name the
  specification gives it.
\<close>

datatype error = MissingAnchorError

section \<open>The decision\<close>

definition euclideanDistance :: "position \<Rightarrow> position \<Rightarrow> number" where
  "euclideanDistance a b =
     Math_sqrt (js_add (js_square (js_sub (pos_x a) (pos_x b)))
                       (js_square (js_sub (pos_y a) (pos_y b))))"

text \<open>The loop over \<^verbatim>\<open>pose.keypoints\<close> that fills \<^verbatim>\<open>kp\<close>.\<close>

fun collect_keypoints :: "keypoint list \<Rightarrow> keypoints \<Rightarrow> keypoints" where
  "collect_keypoints [] kp = kp"
| "collect_keypoints (point # points) kp =
     collect_keypoints points
       (if part point \<in> set [''nose'', ''leftWrist'', ''rightWrist'']
        then kp(part point \<mapsto> position point) else kp)"

definition distLeft :: "keypoints \<Rightarrow> position \<Rightarrow> number" where
  "distLeft kp nose =
     (case kp ''leftWrist'' of Some w \<Rightarrow> euclideanDistance w nose | None \<Rightarrow> Infinity)"

definition distRight :: "keypoints \<Rightarrow> position \<Rightarrow> number" where
  "distRight kp nose =
     (case kp ''rightWrist'' of Some w \<Rightarrow> euclideanDistance w nose | None \<Rightarrow> Infinity)"

definition minDist :: "keypoints \<Rightarrow> position \<Rightarrow> number" where
  "minDist kp nose = Math_min (distLeft kp nose) (distRight kp nose)"

definition THRESHOLD_DISTANCE :: number where
  "THRESHOLD_DISTANCE = Fin 550"

text \<open>The literal \<^verbatim>\<open>0.1\<close> is the double nearest to one tenth.\<close>

definition ACCEPTANCE_THRESHOLD :: number where
  "ACCEPTANCE_THRESHOLD = to_double (1 / 10)"

definition confidenceDecimal :: "number \<Rightarrow> number" where
  "confidenceDecimal d = Math_max (Fin 0) (js_sub (Fin 1) (js_div d THRESHOLD_DISTANCE))"

text \<open>
  Lines 58 to 79 of the handler: the check for the nose and the computation of \<^verbatim>\<open>result\<close>.
  The source has them inline; \<open>decide\<close> is the name the specification gives this part.
  An object is truthy, so \<^verbatim>\<open>!kp.nose\<close> and \<^verbatim>\<open>kp.leftWrist ? ... : Infinity\<close> test whether the
  part was stored.
\<close>

definition decide :: "keypoints \<Rightarrow> error + judgement" where
  "decide kp =
     (case kp ''nose'' of
        None \<Rightarrow> Inl MissingAnchorError
      | Some nose \<Rightarrow>
          Inr \<lparr> closestHand =
                  (if js_strict_eq (minDist kp nose) (distLeft kp nose)
                   then ''leftWrist'' else ''rightWrist''),
                distance = parseFloat (toFixed2 (minDist kp nose)),
                accepted = js_ge (confidenceDecimal (minDist kp nose)) ACCEPTANCE_THRESHOLD \<rparr>)"

section \<open>The handler of \<^verbatim>\<open>POST /pose\<close>\<close>

text \<open>
  The request as the handler sees it, after the upload middleware has set \<^verbatim>\<open>req.file\<close>
  or left it undefined; the response by its status and the object given to \<^verbatim>\<open>res.json\<close>.
\<close>

type_synonym buffer = "nat list"

record request =
  req_file :: "buffer option"

datatype body = ErrorBody string | ResultBody judgement

record response =
  status :: nat
  body :: body

text \<open>
  The collaborators: the promise of the loaded model (\<open>None\<close> when loading was rejected)
  whose \<^verbatim>\<open>estimateSinglePose\<close> returns the keypoints or throws (\<open>None\<close>), and the decoding of
  the upload into a canvas, which returns the canvas or throws.
\<close>

record 'canvas collaborators =
  modelPromise :: "('canvas \<Rightarrow> keypoint list option) option"
  loadImage :: "buffer \<Rightarrow> 'canvas option"

text \<open>
  The effects of the handler: the calls to its collaborators and, in the \<^verbatim>\<open>catch\<close> block,
  the write to the error log by \<^verbatim>\<open>console.error\<close>.
\<close>

datatype call = AwaitModel | LoadImage | EstimateSinglePose | ConsoleError

definition failed :: response where
  "failed = \<lparr> status = 500, body = ErrorBody ''Pose estimation failed'' \<rparr>"

text \<open>
  The handler returns its response and the effects it had, in their order. An exception
  anywhere in the \<^verbatim>\<open>try\<close> block ends in the \<^verbatim>\<open>catch\<close>, which writes to the log and answers
  with status 500.
\<close>

definition pose_handler :: "'canvas collaborators \<Rightarrow> request \<Rightarrow> response \<times> call list" where
  "pose_handler env req =
     (case req_file req of
        None \<Rightarrow> (\<lparr> status = 400, body = ErrorBody ''No image uploaded'' \<rparr>, [])
      | Some buf \<Rightarrow>
          (case modelPromise env of
             None \<Rightarrow> (failed, [AwaitModel, ConsoleError])
           | Some net \<Rightarrow>
               (case loadImage env buf of
                  None \<Rightarrow> (failed, [AwaitModel, LoadImage, ConsoleError])
                | Some canvas \<Rightarrow>
                    (case net canvas of
                       None \<Rightarrow>
                         (failed, [AwaitModel, LoadImage, EstimateSinglePose, ConsoleError])
                     | Some points \<Rightarrow>
                         (case decide (collect_keypoints points Map.empty) of
                            Inl MissingAnchorError \<Rightarrow>
                              (\<lparr> status = 400, body = ErrorBody ''Nose not detected'' \<rparr>,
                               [AwaitModel, LoadImage, EstimateSinglePose])
                          | Inr result \<Rightarrow>
                              (\<lparr> status = 200, body = ResultBody result \<rparr>,
                               [AwaitModel, LoadImage, EstimateSinglePose]))))))"

section \<open>Well-formed input and the reference of the specification\<close>

text \<open>\<^verbatim>\<open>Number.isFinite\<close>: neither NaN nor an infinity.\<close>

fun isFinite :: "number \<Rightarrow> bool" where
  "isFinite (Fin q) = True"
| "isFinite a = False"

text \<open>A position in pixel coordinates has two finite coordinates.\<close>

definition finite_position :: "position \<Rightarrow> bool" where
  "finite_position p = (isFinite (pos_x p) \<and> isFinite (pos_y p))"

definition finite_keypoints :: "keypoints \<Rightarrow> bool" where
  "finite_keypoints kp =
     list_all (\<lambda>name. case kp name of None \<Rightarrow> True | Some p \<Rightarrow> finite_position p)
       [''nose'', ''leftWrist'', ''rightWrist'']"

text \<open>
  Pixel coordinates in the narrower sense: finite and of magnitude at most \<open>2 ^ 60\<close>, far
  beyond the size of any image. Much larger coordinates overflow their squares to the
  infinity, and from \<open>10 ^ 21\<close> on \<^verbatim>\<open>toFixed(2)\<close> gives no decimals.
\<close>

fun pixel_coordinate :: "number \<Rightarrow> bool" where
  "pixel_coordinate (Fin q) = (\<bar>q\<bar> \<le> 2 ^ 60)"
| "pixel_coordinate a = False"

definition pixel_position :: "position \<Rightarrow> bool" where
  "pixel_position p = (pixel_coordinate (pos_x p) \<and> pixel_coordinate (pos_y p))"

definition pixel_keypoints :: "keypoints \<Rightarrow> bool" where
  "pixel_keypoints kp =
     list_all (\<lambda>name. case kp name of None \<Rightarrow> True | Some p \<Rightarrow> pixel_position p)
       [''nose'', ''leftWrist'', ''rightWrist'']"

text \<open>
  The reference of the specification, in exact real arithmetic and independent of the
  program: the real number a finite Number denotes, the Euclidean distance
  \<open>sqrt ((a.x - b.x)\<^sup>2 + (a.y - b.y)\<^sup>2)\<close> of two positions, the distances to the nose of the
  wrists that are present (one for each wrist that is present, none for an absent one),
  and the confidence \<open>max (0, 1 - d / 550)\<close> of a distance.
\<close>

fun spec_value :: "number \<Rightarrow> real" where
  "spec_value (Fin q) = real_of_rat q"
| "spec_value a = 0"

definition spec_distance :: "position \<Rightarrow> position \<Rightarrow> real" where
  "spec_distance a b =
     sqrt ((spec_value (pos_x a) - spec_value (pos_x b))\<^sup>2
           + (spec_value (pos_y a) - spec_value (pos_y b))\<^sup>2)"

definition spec_wrist_distances :: "keypoints \<Rightarrow> position \<Rightarrow> real list" where
  "spec_wrist_distances kp nose =
     map (\<lambda>w. spec_distance w nose) (List.map_filter kp [''leftWrist'', ''rightWrist''])"

definition spec_confidence :: "real \<Rightarrow> real" where
  "spec_confidence d = max 0 (1 - d / 550)"

section \<open>Example inputs\<close>

definition pt :: "rat \<Rightarrow> rat \<Rightarrow> position" where
  "pt a b = \<lparr> pos_x = Fin a, pos_y = Fin b \<rparr>"

text \<open>The left wrist 20 pixels from the nose, the right wrist not detected.\<close>

definition kp_scenario :: keypoints where
  "kp_scenario = [''nose'' \<mapsto> pt 100 100, ''leftWrist'' \<mapsto> pt 120 100]"

text \<open>The right wrist, at 10 pixels, nearer than the left one at 20.\<close>

definition kp_both :: keypoints where
  "kp_both = [''nose'' \<mapsto> pt 100 100, ''leftWrist'' \<mapsto> pt 120 100,
              ''rightWrist'' \<mapsto> pt 100 110]"

text \<open>Only the right wrist, 10 pixels from the nose.\<close>

definition kp_near :: keypoints where
  "kp_near = [''nose'' \<mapsto> pt 100 100, ''rightWrist'' \<mapsto> pt 100 110]"

text \<open>Both wrists 10 pixels from the nose.\<close>

definition kp_tie :: keypoints where
  "kp_tie = [''nose'' \<mapsto> pt 0 0, ''leftWrist'' \<mapsto> pt 10 0, ''rightWrist'' \<mapsto> pt 0 10]"

definition kp_only_nose :: keypoints where
  "kp_only_nose = [''nose'' \<mapsto> pt 0 0]"

definition kp_only_wrist :: keypoints where
  "kp_only_wrist = [''leftWrist'' \<mapsto> pt 10 0]"

text \<open>One wrist, 495 pixels from the nose.\<close>

definition kp_boundary :: keypoints where
  "kp_boundary = [''nose'' \<mapsto> pt 0 0, ''leftWrist'' \<mapsto> pt 495 0]"

text \<open>A pose with the three parts and one more, and the same pose with other scores.\<close>

definition pose_a :: "keypoint list" where
  "pose_a =
     [\<lparr> part = ''nose'', position = pt 100 100, score = Fin (9 / 10) \<rparr>,
      \<lparr> part = ''leftEye'', position = pt 104 96, score = Fin (4 / 5) \<rparr>,
      \<lparr> part = ''leftWrist'', position = pt 120 100, score = Fin (1 / 2) \<rparr>,
      \<lparr> part = ''rightWrist'', position = pt 100 110, score = Fin (7 / 10) \<rparr>]"

definition pose_b :: "keypoint list" where
  "pose_b =
     [\<lparr> part = ''nose'', position = pt 100 100, score = Fin (1 / 10) \<rparr>,
      \<lparr> part = ''leftEye'', position = pt 104 96, score = Fin 0 \<rparr>,
      \<lparr> part = ''leftWrist'', position = pt 120 100, score = Fin 1 \<rparr>,
      \<lparr> part = ''rightWrist'', position = pt 100 110, score = NaN \<rparr>]"

text \<open>A pose in which no nose was found.\<close>

definition pose_no_nose :: "keypoint list" where
  "pose_no_nose =
     [\<lparr> part = ''leftWrist'', position = pt 10 0, score = Fin (1 / 2) \<rparr>,
      \<lparr> part = ''leftEye'', position = pt 4 6, score = Fin (4 / 5) \<rparr>]"

text \<open>Collaborators that never fail, over a canvas that is the uploaded bytes.\<close>

definition env_no_nose :: "buffer collaborators" where
  "env_no_nose =
     \<lparr> modelPromise = Some (\<lambda>canvas. Some pose_no_nose), loadImage = (\<lambda>buf. Some buf) \<rparr>"

text \<open>
  The left wrist at distance 5, the right wrist on the diagonal at distance \<open>sqrt 2\<close>,
  which no double equals.
\<close>

definition kp_diagonal :: keypoints where
  "kp_diagonal = [''nose'' \<mapsto> pt 0 0, ''leftWrist'' \<mapsto> pt 3 4, ''rightWrist'' \<mapsto> pt 1 1]"

text \<open>One wrist at distance 494.99609375, which \<^verbatim>\<open>toFixed(2)\<close> reports as 495.00.\<close>

definition kp_rounding :: keypoints where
  "kp_rounding = [''nose'' \<mapsto> pt 0 0, ''leftWrist'' \<mapsto> pt (126719 / 256) 0]"







section \<open>Rounding to a double\<close>

subsection \<open>The binary exponent and the nearest integer\<close>

lemma bit_length_pos: "0 < a \<Longrightarrow> 0 < bit_length a"
proof (induction a rule: bit_length.induct)
  case (1 a)
  have "0 \<le> bit_length (a div 2)"
  proof (cases "0 < a div 2")
    case True
    with 1 show ?thesis by simp
  next
    case False
    then show ?thesis by (simp add: bit_length.simps)
  qed
  with 1(2) show ?case by (subst bit_length.simps) simp
qed

lemma bit_length_bounds:
  "0 < a \<Longrightarrow> 2 ^ nat (bit_length a - 1) \<le> a \<and> a < 2 ^ nat (bit_length a)"
proof (induction a rule: bit_length.induct)
  case (1 a)
  show ?case
  proof (cases "0 < a div 2")
    case False
    with 1(2) have a1: "a = 1" by linarith
    have "bit_length 1 = 1"
      by (simp add: bit_length.simps[of 1] bit_length.simps[of 0])
    with a1 show ?thesis by simp
  next
    case True
    let ?L = "bit_length (a div 2)"
    from True 1 have IH: "2 ^ nat (?L - 1) \<le> a div 2" "a div 2 < 2 ^ nat ?L" by simp_all
    from True have Lpos: "0 < ?L" by (rule bit_length_pos)
    have bl: "bit_length a = 1 + ?L" using 1(2) by (subst bit_length.simps) simp
    have e1: "(2::int) ^ nat ?L = 2 * 2 ^ nat (?L - 1)"
      using Lpos by (metis Suc_nat_eq_nat_zadd1 add.commute diff_add_cancel diff_ge_0_iff_ge
          int_one_le_iff_zero_less power_Suc)
    have e2: "(2::int) ^ nat (1 + ?L) = 2 * 2 ^ nat ?L"
      using Lpos by (simp add: nat_add_distrib)
    have "2 * (a div 2) \<le> a" by simp
    moreover have "a < 2 * (a div 2) + 2" by linarith
    ultimately show ?thesis using IH bl e1 e2 by auto
  qed
qed

lemma bit_length_powi:
  assumes "0 < a"
  shows "2 powi (bit_length a - 1) \<le> (of_int a :: rat)" and "(of_int a :: rat) < 2 powi bit_length a"
proof -
  from assms have p: "0 < bit_length a" by (rule bit_length_pos)
  from bit_length_bounds[OF assms]
  have b: "2 ^ nat (bit_length a - 1) \<le> a" "a < 2 ^ nat (bit_length a)" by simp_all
  have "(2::rat) powi (bit_length a - 1) = 2 ^ nat (bit_length a - 1)"
    using p by (simp add: power_int_def)
  also have "\<dots> = of_int (2 ^ nat (bit_length a - 1))" by simp
  also have "\<dots> \<le> of_int a" using b(1) by (simp only: of_int_le_iff)
  finally show "2 powi (bit_length a - 1) \<le> (of_int a :: rat)" .
  have "(of_int a :: rat) < of_int (2 ^ nat (bit_length a))" using b(2) by (simp only: of_int_less_iff)
  also have "\<dots> = 2 powi bit_length a" using p by (simp add: power_int_def)
  finally show "(of_int a :: rat) < 2 powi bit_length a" .
qed

lemma powi2_less_iff: "(2::rat) powi a < 2 powi b \<longleftrightarrow> a < b"
proof
  assume l: "(2::rat) powi a < 2 powi b"
  show "a < b"
  proof (rule ccontr)
    assume "\<not> a < b"
    then have "b \<le> a" by simp
    then have "(2::rat) powi b \<le> 2 powi a" by (intro power_int_increasing) simp_all
    with l show False by simp
  qed
next
  assume "a < b"
  then show "(2::rat) powi a < 2 powi b" by (intro power_int_strict_increasing) simp_all
qed

lemma powi2_le_iff: "(2::rat) powi a \<le> 2 powi b \<longleftrightarrow> a \<le> b"
  using powi2_less_iff[of b a] by (simp add: not_less[symmetric])

lemma powi2_unique:
  assumes "2 powi e \<le> (q::rat)" "q < 2 powi (e + 1)" "2 powi e' \<le> q" "q < 2 powi (e' + 1)"
  shows "e = e'"
proof -
  have "(2::rat) powi e < 2 powi (e' + 1)" using assms by linarith
  then have "e < e' + 1" by (simp only: powi2_less_iff)
  moreover have "(2::rat) powi e' < 2 powi (e + 1)" using assms by linarith
  then have "e' < e + 1" by (simp only: powi2_less_iff)
  ultimately show ?thesis by simp
qed

lemma ilog2_bounds:
  assumes "0 < q"
  shows "2 powi ilog2 q \<le> q" and "q < 2 powi (ilog2 q + 1)"
proof -
  obtain a b where ab: "quotient_of q = (a, b)" by (cases "quotient_of q")
  then have bpos: "0 < b" by (rule quotient_of_denom_pos)
  from ab have q: "q = of_int a / of_int b" by (rule quotient_of_div)
  with assms bpos have apos: "0 < a" by (simp add: zero_less_divide_iff)
  let ?k = "bit_length a - bit_length b"
  have bq: "0 < (of_int b :: rat)" using bpos by simp
  have up: "q < 2 powi (?k + 1)"
  proof -
    have "of_int a < (2::rat) powi bit_length a" using apos by (rule bit_length_powi)
    also have "\<dots> = 2 powi (?k + 1) * 2 powi (bit_length b - 1)"
      by (simp flip: power_int_add)
    also have "\<dots> \<le> 2 powi (?k + 1) * of_int b"
      using bit_length_powi(1)[OF bpos] by (intro mult_left_mono) simp_all
    finally show ?thesis using bq by (simp add: q pos_divide_less_eq)
  qed
  have lo: "2 powi (?k - 1) \<le> q"
  proof -
    have "(2::rat) powi (?k - 1) * of_int b \<le> 2 powi (?k - 1) * 2 powi bit_length b"
      using bit_length_powi(2)[OF bpos] by (intro mult_left_mono) simp_all
    also have "\<dots> = 2 powi (bit_length a - 1)" by (simp flip: power_int_add)
    also have "\<dots> \<le> of_int a" using apos by (rule bit_length_powi)
    finally show ?thesis using bq by (simp add: q pos_le_divide_eq)
  qed
  have il: "ilog2 q = (if 2 powi ?k \<le> q then ?k else ?k - 1)"
    by (simp add: ilog2_def ab)
  show "2 powi ilog2 q \<le> q" using lo by (simp add: il)
  show "q < 2 powi (ilog2 q + 1)" using up by (auto simp: il)
qed

lemma ilog2_unique:
  assumes "2 powi e \<le> q" and "q < 2 powi (e + 1)"
  shows "ilog2 q = e"
proof -
  have "0 < (2::rat) powi e" by simp
  with assms have "0 < q" by linarith
  from ilog2_bounds[OF this] assms show ?thesis by (intro powi2_unique[of _ q])
qed

lemma ilog2_mono:
  assumes "0 < q" and "q \<le> q'"
  shows "ilog2 q \<le> ilog2 q'"
proof -
  from assms have q': "0 < q'" by simp
  have "(2::rat) powi ilog2 q \<le> q" using assms(1) by (rule ilog2_bounds)
  also have "q \<le> q'" by fact
  also have "q' < 2 powi (ilog2 q' + 1)" using q' by (rule ilog2_bounds)
  finally have "ilog2 q < ilog2 q' + 1" by (simp only: powi2_less_iff)
  then show ?thesis by simp
qed

lemma round_half_even_near:
  "of_int (round_half_even t) \<le> t + 1 / 2" "t - 1 / 2 \<le> of_int (round_half_even t)"
proof -
  define f where "f = \<lfloor>t\<rfloor>"
  define r where "r = t - of_int f"
  have r: "0 \<le> r" "r < 1" unfolding r_def f_def by linarith+
  have t: "t = of_int f + r" unfolding r_def by simp
  have rhe: "round_half_even t =
      (if r < 1 / 2 then f else if 1 / 2 < r then f + 1 else if even f then f else f + 1)"
    by (simp add: round_half_even_def Let_def f_def r_def)
  have "of_int (round_half_even t) \<le> of_int f + r + 1 / 2"
    unfolding rhe using r by (cases "r < 1 / 2"; cases "1 / 2 < r"; cases "even f"; simp)
  then show "of_int (round_half_even t) \<le> t + 1 / 2" using t by linarith
  have "of_int f + r - 1 / 2 \<le> of_int (round_half_even t)"
    unfolding rhe using r by (cases "r < 1 / 2"; cases "1 / 2 < r"; cases "even f"; simp)
  then show "t - 1 / 2 \<le> of_int (round_half_even t)" using t by linarith
qed

lemma round_half_even_of_int [simp]: "round_half_even (of_int n) = n"
  by (simp add: round_half_even_def)

lemma round_half_even_mono:
  assumes "t \<le> t'"
  shows "round_half_even t \<le> round_half_even t'"
proof (rule ccontr)
  assume "\<not> round_half_even t \<le> round_half_even t'"
  then have gt: "round_half_even t' + 1 \<le> round_half_even t" by simp
  then have "(of_int (round_half_even t') :: rat) + 1 \<le> of_int (round_half_even t)"
    by (metis of_int_1 of_int_add of_int_le_iff)
  with round_half_even_near(1)[of t] round_half_even_near(2)[of t'] assms
  have "t = t'" by linarith
  with gt show False by simp
qed

lemma round_half_even_nonneg: "0 \<le> t \<Longrightarrow> 0 \<le> round_half_even t"
  using round_half_even_mono[of 0 t] round_half_even_of_int[of 0] by simp

lemma round_half_even_nonpos: "t \<le> 0 \<Longrightarrow> round_half_even t \<le> 0"
  using round_half_even_mono[of t 0] round_half_even_of_int[of 0] by simp


lemma round_half_even_char:
  "\<bar>of_int (round_half_even t) - t\<bar> < 1 / 2
   \<or> \<bar>of_int (round_half_even t) - t\<bar> = 1 / 2 \<and> even (round_half_even t)"
proof -
  define f where "f = \<lfloor>t\<rfloor>"
  define r where "r = t - of_int f"
  have r: "0 \<le> r" "r < 1" unfolding r_def f_def by linarith+
  have t: "t = of_int f + r" unfolding r_def by simp
  have rhe: "round_half_even t =
      (if r < 1 / 2 then f else if 1 / 2 < r then f + 1 else if even f then f else f + 1)"
    by (simp add: round_half_even_def Let_def f_def r_def)
  have d: "of_int f - t = - r" "of_int (f + 1) - t = 1 - r" by (simp_all add: r_def)
  consider "r < 1 / 2" | "1 / 2 < r" | "r = 1 / 2" "even f" | "r = 1 / 2" "odd f"
    by fastforce
  then show ?thesis
  proof cases
    case 1
    then have m: "round_half_even t = f" by (simp add: rhe)
    have "\<bar>of_int (round_half_even t) - t\<bar> = r" unfolding m d using r by simp
    then show ?thesis using 1 by simp
  next
    case 2
    then have m: "round_half_even t = f + 1" by (simp add: rhe)
    have "\<bar>of_int (round_half_even t) - t\<bar> = 1 - r" unfolding m d using r by simp
    then show ?thesis using 2 by simp
  next
    case 3
    then have m: "round_half_even t = f" by (simp add: rhe)
    have "\<bar>of_int (round_half_even t) - t\<bar> = r" unfolding m d using r by simp
    then show ?thesis using 3 m by simp
  next
    case 4
    then have m: "round_half_even t = f + 1" by (simp add: rhe)
    have "\<bar>of_int (round_half_even t) - t\<bar> = 1 - r" unfolding m d using r by simp
    then show ?thesis using 4 m by simp
  qed
qed

lemma round_half_even_unique:
  assumes "\<bar>of_int n - t\<bar> < 1 / 2 \<or> \<bar>of_int n - t\<bar> = 1 / 2 \<and> even n"
  shows "round_half_even t = n"
proof (rule ccontr)
  let ?m = "round_half_even t"
  assume ne: "?m \<noteq> n"
  have c: "\<bar>of_int ?m - t\<bar> < 1 / 2 \<or> \<bar>of_int ?m - t\<bar> = 1 / 2 \<and> even ?m"
    by (rule round_half_even_char)
  from ne have "1 \<le> \<bar>?m - n\<bar>" by simp
  then have one: "1 \<le> \<bar>(of_int ?m :: rat) - of_int n\<bar>"
    by (metis of_int_1 of_int_abs of_int_diff of_int_le_iff)
  have tri: "\<bar>(of_int ?m :: rat) - of_int n\<bar> \<le> \<bar>of_int ?m - t\<bar> + \<bar>of_int n - t\<bar>"
    by linarith
  from one tri c assms have h: "\<bar>of_int ?m - t\<bar> = 1 / 2" "\<bar>of_int n - t\<bar> = 1 / 2"
    "even ?m" "even n" by linarith+
  with tri one have "\<bar>(of_int ?m :: rat) - of_int n\<bar> = 1" by linarith
  then have "\<bar>?m - n\<bar> = 1"
    by (metis of_int_1 of_int_abs of_int_diff of_int_eq_iff)
  with h(3,4) show False by presburger
qed

lemma round_half_even_minus: "round_half_even (- t) = - round_half_even t"
proof (rule round_half_even_unique)
  have e: "\<bar>of_int (- round_half_even t) - - t\<bar> = \<bar>of_int (round_half_even t) - t\<bar>"
    by simp
  show "\<bar>of_int (- round_half_even t) - - t\<bar> < 1 / 2
      \<or> \<bar>of_int (- round_half_even t) - - t\<bar> = 1 / 2 \<and> even (- round_half_even t)"
    unfolding e using round_half_even_char[of t] by simp
qed

lemma quantum_pos [simp]: "0 < quantum q"
  by (simp add: quantum_def)

lemma quantum_nonneg [simp]: "0 \<le> quantum q"
  by (simp add: quantum_def)

lemma quantum_minus [simp]: "quantum (- q) = quantum q"
  by (simp add: quantum_def)

lemma rounded_minus: "rounded (- q) = - rounded q"
  by (simp add: rounded_def round_half_even_minus)

lemma rounded_0 [simp]: "rounded 0 = 0"
  using round_half_even_of_int[of 0] by (simp add: rounded_def)

lemma rounded_nonneg:
  assumes "0 \<le> q"
  shows "0 \<le> rounded q"
proof -
  have "0 \<le> q / quantum q" using assms by (simp add: zero_le_divide_iff)
  then have "0 \<le> round_half_even (q / quantum q)" by (rule round_half_even_nonneg)
  then show ?thesis unfolding rounded_def by (intro mult_nonneg_nonneg) simp_all
qed

lemma rounded_nonpos: "q \<le> 0 \<Longrightarrow> rounded q \<le> 0"
  using rounded_nonneg[of "- q"] by (simp add: rounded_minus)

lemma powi2_53: "(2::rat) powi (e + 1) = of_int (2 ^ 53) * 2 powi (e - 52)"
proof -
  have "(2::rat) powi (53 + (e - 52)) = 2 powi 53 * 2 powi (e - 52)"
    by (rule power_int_add) simp
  moreover have "53 + (e - 52) = e + 1" by simp
  ultimately show ?thesis by simp
qed

lemma powi2_52: "(2::rat) powi e = of_int (2 ^ 52) * 2 powi (e - 52)"
proof -
  have "(2::rat) powi (52 + (e - 52)) = 2 powi 52 * 2 powi (e - 52)"
    by (rule power_int_add) simp
  moreover have "52 + (e - 52) = e" by simp
  ultimately show ?thesis by simp
qed

lemma rounded_mono_pos:
  assumes "0 < q" and "q \<le> q'"
  shows "rounded q \<le> rounded q'"
proof -
  from assms have q': "0 < q'" by simp
  define e where "e = max (ilog2 q) (- 1022)"
  define e' where "e' = max (ilog2 q') (- 1022)"
  have u: "quantum q = 2 powi (e - 52)" using assms(1) by (simp add: quantum_def e_def)
  have u': "quantum q' = 2 powi (e' - 52)" using q' by (simp add: quantum_def e'_def)
  have ee': "e \<le> e'" using ilog2_mono[OF assms] by (simp add: e_def e'_def)
  show ?thesis
  proof (cases "e = e'")
    case True
    then have uu: "quantum q' = quantum q" by (simp add: u u')
    have "q / quantum q \<le> q' / quantum q"
      by (rule divide_right_mono[OF assms(2)]) simp
    then have "round_half_even (q / quantum q) \<le> round_half_even (q' / quantum q)"
      by (rule round_half_even_mono)
    then have "(of_int (round_half_even (q / quantum q)) :: rat)
        \<le> of_int (round_half_even (q' / quantum q))" by (simp only: of_int_le_iff)
    then show ?thesis by (simp add: rounded_def uu)
  next
    case False
    with ee' have lt: "e < e'" by simp
    then have e'il: "e' = ilog2 q'" unfolding e'_def e_def by linarith
    have lo': "2 powi e' \<le> q'" unfolding e'il using q' by (rule ilog2_bounds)
    have "q < 2 powi (ilog2 q + 1)" using assms(1) by (rule ilog2_bounds)
    also have "\<dots> \<le> 2 powi (e + 1)" by (simp only: powi2_le_iff) (simp add: e_def)
    finally have hi: "q \<le> 2 powi (e + 1)" by simp
    have "q / quantum q \<le> 2 powi (e + 1) / quantum q"
      by (rule divide_right_mono[OF hi]) simp
    also have "2 powi (e + 1) / quantum q = of_int (2 ^ 53)"
      unfolding u powi2_53[of e] by simp
    finally have "round_half_even (q / quantum q) \<le> round_half_even (of_int (2 ^ 53))"
      by (rule round_half_even_mono)
    then have "round_half_even (q / quantum q) \<le> 2 ^ 53"
      by (simp only: round_half_even_of_int)
    then have "(of_int (round_half_even (q / quantum q)) :: rat) \<le> of_int (2 ^ 53)"
      by (simp only: of_int_le_iff)
    then have "rounded q \<le> of_int (2 ^ 53) * quantum q"
      unfolding rounded_def by (intro mult_right_mono) simp_all
    also have "\<dots> = 2 powi (e + 1)" unfolding u by (rule powi2_53[symmetric])
    finally have A: "rounded q \<le> 2 powi (e + 1)" .
    have "of_int (2 ^ 52) = 2 powi e' / quantum q'"
      unfolding u' powi2_52[of e'] by simp
    also have "\<dots> \<le> q' / quantum q'"
      by (rule divide_right_mono[OF lo']) simp
    finally have "round_half_even (of_int (2 ^ 52)) \<le> round_half_even (q' / quantum q')"
      by (rule round_half_even_mono)
    then have "2 ^ 52 \<le> round_half_even (q' / quantum q')"
      by (simp only: round_half_even_of_int)
    then have "(of_int (2 ^ 52) :: rat) \<le> of_int (round_half_even (q' / quantum q'))"
      by (simp only: of_int_le_iff)
    then have "of_int (2 ^ 52) * quantum q' \<le> rounded q'"
      unfolding rounded_def by (intro mult_right_mono) simp_all
    moreover have "of_int (2 ^ 52) * quantum q' = 2 powi e'"
      unfolding u' by (rule powi2_52[symmetric])
    ultimately have B: "2 powi e' \<le> rounded q'" by simp
    have "(2::rat) powi (e + 1) \<le> 2 powi e'" using lt by (simp add: powi2_le_iff)
    with A B show ?thesis by linarith
  qed
qed

lemma rounded_mono:
  assumes "q \<le> q'"
  shows "rounded q \<le> rounded q'"
proof -
  consider "0 < q" | "q \<le> 0" "0 \<le> q'" | "q' < 0" by linarith
  then show ?thesis
  proof cases
    case 1
    then show ?thesis using assms by (rule rounded_mono_pos)
  next
    case 2
    then show ?thesis using rounded_nonpos[of q] rounded_nonneg[of q'] by linarith
  next
    case 3
    then have "0 < - q'" "- q' \<le> - q" using assms by simp_all
    then have "rounded (- q') \<le> rounded (- q)" by (rule rounded_mono_pos)
    then show ?thesis by (simp add: rounded_minus)
  qed
qed

lemma to_double_not_NaN [simp]: "to_double q \<noteq> NaN"
  by (simp add: to_double_def Let_def)

lemma to_double_mono: "q \<le> q' \<Longrightarrow> js_le (to_double q) (to_double q')"
  using rounded_mono[of q q'] by (simp add: to_double_def Let_def)

lemma to_double_nonneg: "0 \<le> q \<Longrightarrow> js_le (Fin 0) (to_double q)"
  using rounded_nonneg[of q] by (simp add: to_double_def Let_def)

lemma to_double_0 [simp]: "to_double 0 = Fin 0"
  by (simp add: to_double_def)

lemma floor_rat_numeral [simp]: "\<lfloor>numeral a / numeral b :: rat\<rfloor> = numeral a div numeral b"
  by (metis floor_divide_of_int_eq of_int_numeral)

lemma to_double_eval:
  assumes "2 powi e \<le> \<bar>q\<bar>" and "\<bar>q\<bar> < 2 powi (e + 1)" and "- 1022 \<le> e"
    and "v = of_int (round_half_even (q / 2 powi (e - 52))) * 2 powi (e - 52)"
    and "\<bar>v\<bar> < 2 ^ 1024"
  shows "to_double q = Fin v"
proof -
  have "ilog2 \<bar>q\<bar> = e" using assms(1,2) by (rule ilog2_unique)
  then have "quantum q = 2 powi (e - 52)" using assms(3) by (simp add: quantum_def)
  then have "rounded q = v" by (simp add: rounded_def assms(4))
  moreover have "- (2 ^ 1024) < v" "v < 2 ^ 1024" using assms(5) by (simp_all only: abs_less_iff) simp_all
  ultimately show ?thesis by (simp add: to_double_def)
qed

lemma to_double_1: "to_double 1 = Fin 1"
  by (rule to_double_eval[where e = 0]) (simp_all add: round_half_even_def Let_def)

lemma to_double_tenth: "to_double (1 / 10) = Fin (3602879701896397 / 36028797018963968)"
  by (rule to_double_eval[where e = "- 4"]) (simp_all add: round_half_even_def Let_def)

lemma to_double_nine_tenths: "to_double (9 / 10) = Fin (8106479329266893 / 9007199254740992)"
  by (rule to_double_eval[where e = "- 1"]) (simp_all add: round_half_even_def Let_def)

subsection \<open>The rounding is the one of IEEE 754\<close>

text \<open>
  No double is nearer to \<open>q\<close> than \<open>rounded q\<close>; the result is a double unless it
  overflows; and it overflows from \<open>2 ^ 1024 - 2 ^ 970\<close> on, half a spacing above the
  largest double.
\<close>

lemma round_half_even_nearest:
  "\<bar>of_int (round_half_even t) - t\<bar> \<le> \<bar>of_int k - t\<bar>"
proof (cases "k = round_half_even t")
  case True
  then show ?thesis by simp
next
  case False
  then have "1 \<le> \<bar>k - round_half_even t\<bar>" by simp
  then have "1 \<le> \<bar>(of_int k :: rat) - of_int (round_half_even t)\<bar>"
    by (metis of_int_1 of_int_abs of_int_diff of_int_le_iff)
  with round_half_even_near[of t] show ?thesis by linarith
qed

lemma abs_scale:
  assumes "0 < (u::rat)"
  shows "\<bar>a * u - q\<bar> = \<bar>a - q / u\<bar> * u"
proof -
  have "a * u - q = (a - q / u) * u" using assms by (simp add: field_simps)
  then show ?thesis using assms by (simp add: abs_mult)
qed

lemma rounded_nearest_multiple:
  "\<bar>rounded q - q\<bar> \<le> \<bar>of_int k * quantum q - q\<bar>"
proof -
  have u: "0 < quantum q" by simp
  have "\<bar>rounded q - q\<bar> = \<bar>of_int (round_half_even (q / quantum q)) - q / quantum q\<bar> * quantum q"
    unfolding rounded_def by (rule abs_scale[OF u])
  also have "\<dots> \<le> \<bar>of_int k - q / quantum q\<bar> * quantum q"
    by (intro mult_right_mono round_half_even_nearest) simp
  also have "\<dots> = \<bar>of_int k * quantum q - q\<bar>"
    by (rule abs_scale[OF u, symmetric])
  finally show ?thesis .
qed

lemma double_on_coarser_grid:
  assumes d: "(d::rat) = of_int m * 2 powi (e - 52)" and le: "e0 \<le> e"
  shows "\<exists>k. d = of_int k * 2 powi (e0 - 52)"
proof -
  define n where "n = nat (e - e0)"
  have en: "e - 52 = (e0 - 52) + int n" using le by (simp add: n_def)
  have "(2::rat) powi ((e0 - 52) + int n) = 2 powi (e0 - 52) * 2 powi int n"
    by (rule power_int_add) simp
  also have "(2::rat) powi int n = 2 ^ n" by (rule power_int_of_nat)
  finally have "(2::rat) powi (e - 52) = 2 powi (e0 - 52) * 2 ^ n" by (simp only: en)
  then have "d = of_int (m * 2 ^ n) * 2 powi (e0 - 52)" by (simp add: d)
  then show ?thesis by blast
qed

proposition rounded_nearest_double:
  assumes "is_double d"
  shows "\<bar>rounded q - q\<bar> \<le> \<bar>d - q\<bar>"
proof (cases "q = 0")
  case True
  then show ?thesis by simp
next
  case qne: False
  from assms obtain m e where m: "\<bar>m\<bar> < 2 ^ 53" and e: "- 1022 \<le> e" "e \<le> 1023"
    and d: "d = of_int m * 2 powi (e - 52)" unfolding is_double_def by blast
  define e0 where "e0 = max (ilog2 \<bar>q\<bar>) (- 1022)"
  have u: "quantum q = 2 powi (e0 - 52)" by (simp add: quantum_def e0_def)
  show ?thesis
  proof (cases "e0 \<le> e")
    case True
    from double_on_coarser_grid[OF d True] obtain k where "d = of_int k * quantum q"
      unfolding u by blast
    then show ?thesis using rounded_nearest_multiple[of q k] by simp
  next
    case False
    then have lt: "e < e0" by simp
    with e(1) have e0: "e0 = ilog2 \<bar>q\<bar>" unfolding e0_def by linarith
    from qne have qpos: "0 < \<bar>q\<bar>" by simp
    have lo: "2 powi e0 \<le> \<bar>q\<bar>" unfolding e0 using qpos by (rule ilog2_bounds)
    have "(of_int \<bar>m\<bar> :: rat) \<le> of_int (2 ^ 53)" using m by (simp only: of_int_le_iff)
    then have "of_int \<bar>m\<bar> * 2 powi (e - 52) \<le> of_int (2 ^ 53) * (2::rat) powi (e - 52)"
      by (intro mult_right_mono) simp_all
    moreover have "\<bar>d\<bar> = of_int \<bar>m\<bar> * 2 powi (e - 52)" by (simp add: d abs_mult)
    moreover have "of_int (2 ^ 53) * (2::rat) powi (e - 52) = 2 powi (e + 1)"
      by (rule powi2_53[symmetric])
    moreover have "(2::rat) powi (e + 1) \<le> 2 powi e0" using lt by (simp add: powi2_le_iff)
    ultimately have dlt: "\<bar>d\<bar> \<le> 2 powi e0" by linarith
    define c :: int where "c = (if 0 < q then 2 ^ 52 else - (2 ^ 52))"
    define g :: rat where "g = of_int c * quantum q"
    have g: "g = (if 0 < q then 2 powi e0 else - (2 powi e0))"
      unfolding g_def c_def u using powi2_52[of e0] by simp
    have "\<bar>rounded q - q\<bar> \<le> \<bar>g - q\<bar>"
      unfolding g_def by (rule rounded_nearest_multiple)
    also have "\<bar>g - q\<bar> = \<bar>q\<bar> - 2 powi e0" using lo qne by (auto simp: g)
    also have "\<dots> \<le> \<bar>q\<bar> - \<bar>d\<bar>" using dlt by simp
    also have "\<dots> \<le> \<bar>d - q\<bar>" by linarith
    finally show ?thesis .
  qed
qed


lemma quantum_eq:
  assumes "2 powi e \<le> \<bar>q\<bar>" and "\<bar>q\<bar> < 2 powi (e + 1)"
  shows "quantum q = 2 powi (max e (- 1022) - 52)"
  using ilog2_unique[OF assms] by (simp add: quantum_def)

lemma rounded_le_next_power:
  assumes "0 < q"
  shows "rounded q \<le> 2 powi (max (ilog2 q) (- 1022) + 1)"
proof -
  define e where "e = max (ilog2 q) (- 1022)"
  have u: "quantum q = 2 powi (e - 52)" using assms by (simp add: quantum_def e_def)
  have "q < 2 powi (ilog2 q + 1)" using assms by (rule ilog2_bounds)
  also have "\<dots> \<le> 2 powi (e + 1)" by (simp only: powi2_le_iff) (simp add: e_def)
  finally have hi: "q \<le> 2 powi (e + 1)" by simp
  have "q / quantum q \<le> 2 powi (e + 1) / quantum q"
    by (rule divide_right_mono[OF hi]) simp
  also have "2 powi (e + 1) / quantum q = of_int (2 ^ 53)"
    unfolding u powi2_53[of e] by simp
  finally have "round_half_even (q / quantum q) \<le> round_half_even (of_int (2 ^ 53))"
    by (rule round_half_even_mono)
  then have "round_half_even (q / quantum q) \<le> 2 ^ 53"
    by (simp only: round_half_even_of_int)
  then have "(of_int (round_half_even (q / quantum q)) :: rat) \<le> of_int (2 ^ 53)"
    by (simp only: of_int_le_iff)
  then have "rounded q \<le> of_int (2 ^ 53) * quantum q"
    unfolding rounded_def by (intro mult_right_mono) simp_all
  also have "\<dots> = 2 powi (e + 1)" unfolding u by (rule powi2_53[symmetric])
  finally show ?thesis unfolding e_def .
qed

lemma rounded_overflow_threshold: "rounded (2 ^ 1024 - 2 ^ 970) = 2 ^ 1024"
proof -
  define T :: rat where "T = 2 ^ 1024 - 2 ^ 970"
  have "2 powi 1023 \<le> \<bar>T\<bar>" "\<bar>T\<bar> < 2 powi (1023 + 1)" by (simp_all add: T_def)
  then have "quantum T = 2 powi (max 1023 (- 1022) - 52)" by (rule quantum_eq)
  then have q: "quantum T = 2 powi 971" by simp
  have r: "round_half_even (T / 2 powi 971) = 2 ^ 53"
    by (rule round_half_even_unique) (simp add: T_def)
  have "rounded T = of_int (2 ^ 53) * 2 powi 971" unfolding rounded_def q r ..
  also have "\<dots> = 2 ^ 1024" by simp
  finally show ?thesis unfolding T_def .
qed

proposition overflow_iff: "to_double q = Infinity \<longleftrightarrow> 2 ^ 1024 - 2 ^ 970 \<le> q"
proof
  assume "2 ^ 1024 - 2 ^ 970 \<le> q"
  then have "rounded (2 ^ 1024 - 2 ^ 970) \<le> rounded q" by (rule rounded_mono)
  then have "2 ^ 1024 \<le> rounded q" unfolding rounded_overflow_threshold .
  then show "to_double q = Infinity" by (simp add: to_double_def Let_def)
next
  assume inf: "to_double q = Infinity"
  then have big: "2 ^ 1024 \<le> rounded q" by (simp add: to_double_def Let_def split: if_splits)
  show "2 ^ 1024 - 2 ^ 970 \<le> q"
  proof (rule ccontr)
    assume "\<not> 2 ^ 1024 - 2 ^ 970 \<le> q"
    then have lt: "q < 2 ^ 1024 - 2 ^ 970" by simp
    have qpos: "0 < q"
    proof (rule ccontr)
      assume "\<not> 0 < q"
      then have "rounded q \<le> 0" by (intro rounded_nonpos) simp
      with big show False by simp
    qed
    define e where "e = max (ilog2 q) (- 1022)"
    have "(2::rat) powi ilog2 q \<le> q" using qpos by (rule ilog2_bounds)
    also have "q < 2 powi 1024" using lt by simp
    finally have "ilog2 q < 1024" by (simp only: powi2_less_iff)
    then have e1023: "e \<le> 1023" by (simp add: e_def)
    show False
    proof (cases "e = 1023")
      case False
      with e1023 have "e + 1 \<le> 1023" by simp
      then have "(2::rat) powi (e + 1) \<le> 2 powi 1023" by (simp only: powi2_le_iff)
      with rounded_le_next_power[OF qpos] big show False by (simp add: e_def)
    next
      case True
      then have u: "quantum q = 2 powi 971" using qpos by (simp add: quantum_def e_def)
      have "q / 2 powi 971 < (2 ^ 1024 - 2 ^ 970) / 2 powi 971"
        using lt by (intro divide_strict_right_mono) simp_all
      then have "q / 2 powi 971 < 2 ^ 53 - 1 / 2" by simp
      with round_half_even_near(1)[of "q / 2 powi 971"]
      have "(of_int (round_half_even (q / 2 powi 971)) :: rat) < of_int (2 ^ 53)" by simp
      then have "round_half_even (q / 2 powi 971) < 2 ^ 53" by (simp only: of_int_less_iff)
      then have "round_half_even (q / 2 powi 971) \<le> 2 ^ 53 - 1" by simp
      then have "(of_int (round_half_even (q / 2 powi 971)) :: rat) \<le> of_int (2 ^ 53 - 1)"
        by (simp only: of_int_le_iff)
      then have "rounded q \<le> of_int (2 ^ 53 - 1) * 2 powi 971"
        unfolding rounded_def u by (intro mult_right_mono) simp_all
      with big show False by simp
    qed
  qed
qed

proposition rounded_is_double:
  assumes "\<bar>rounded q\<bar> < 2 ^ 1024"
  shows "is_double (rounded q)"
proof (cases "q = 0")
  case True
  have "(0::rat) = of_int 0 * 2 powi (0 - 52)" by simp
  then have "is_double 0" unfolding is_double_def by (intro exI[of _ 0] conjI) simp_all
  with True show ?thesis by simp
next
  case False
  then have qpos: "0 < \<bar>q\<bar>" by simp
  define e where "e = max (ilog2 \<bar>q\<bar>) (- 1022)"
  define m where "m = round_half_even (q / quantum q)"
  have u: "quantum q = 2 powi (e - 52)" by (simp add: quantum_def e_def)
  have v: "rounded q = of_int m * 2 powi (e - 52)" by (simp add: rounded_def m_def u)
  have elo: "- 1022 \<le> e" by (simp add: e_def)
  have "\<bar>q\<bar> < 2 powi (ilog2 \<bar>q\<bar> + 1)" using qpos by (rule ilog2_bounds)
  also have "\<dots> \<le> 2 powi (e + 1)" by (simp only: powi2_le_iff) (simp add: e_def)
  finally have "\<bar>q\<bar> / quantum q \<le> 2 powi (e + 1) / quantum q"
    by (intro divide_right_mono) simp_all
  also have "2 powi (e + 1) / quantum q = of_int (2 ^ 53)"
    unfolding u powi2_53[of e] by simp
  finally have "\<bar>q\<bar> / quantum q \<le> of_int (2 ^ 53)" .
  moreover have "\<bar>q / quantum q\<bar> = \<bar>q\<bar> / quantum q" by (simp add: abs_divide)
  ultimately have t: "- of_int (2 ^ 53) \<le> q / quantum q" "q / quantum q \<le> of_int (2 ^ 53)"
    by linarith+
  have "round_half_even (- of_int (2 ^ 53)) \<le> m" "m \<le> round_half_even (of_int (2 ^ 53))"
    unfolding m_def using t by (intro round_half_even_mono; simp)+
  then have mb: "\<bar>m\<bar> \<le> 2 ^ 53"
    by (simp add: round_half_even_minus abs_le_iff del: of_int_power of_int_numeral)
  have vabs: "\<bar>rounded q\<bar> = of_int \<bar>m\<bar> * 2 powi (e - 52)" by (simp add: v abs_mult)
  show ?thesis
  proof (cases "\<bar>m\<bar> = 2 ^ 53")
    case True
    then have "\<bar>rounded q\<bar> = 2 powi (e + 1)" unfolding vabs powi2_53[of e] by simp
    with assms have "(2::rat) powi (e + 1) < 2 powi 1024" by simp
    then have "e + 1 < 1024" by (simp only: powi2_less_iff)
    then have e1: "e + 1 \<le> 1023" by simp
    from True have "m = 2 ^ 53 \<or> m = - (2 ^ 53)" by linarith
    then have "rounded q = of_int (m div 2) * 2 powi ((e + 1) - 52)"
      unfolding v using powi2_53[of e] powi2_52[of "e + 1"] by auto
    moreover have "\<bar>m div 2\<bar> < 2 ^ 53" using \<open>m = 2 ^ 53 \<or> m = - (2 ^ 53)\<close> by auto
    ultimately show ?thesis
      unfolding is_double_def using e1 elo by (intro exI[of _ "m div 2"] exI[of _ "e + 1"]) simp
  next
    case False
    with mb have ml: "\<bar>m\<bar> < 2 ^ 53" by simp
    have "e \<le> 1023"
    proof (rule ccontr)
      assume "\<not> e \<le> 1023"
      then have big: "1024 \<le> e" by simp
      then have eil: "e = ilog2 \<bar>q\<bar>" unfolding e_def by linarith
      have lo: "2 powi e \<le> \<bar>q\<bar>" unfolding eil using qpos by (rule ilog2_bounds)
      have "(2::rat) powi 1024 \<le> 2 powi e" using big by (simp only: powi2_le_iff)
      with lo have q1024: "2 ^ 1024 - 2 ^ 970 \<le> \<bar>q\<bar>" by simp
      have "to_double \<bar>q\<bar> = Infinity" using q1024 by (simp only: overflow_iff)
      then have "2 ^ 1024 \<le> rounded \<bar>q\<bar>" by (simp add: to_double_def Let_def split: if_splits)
      moreover have "rounded \<bar>q\<bar> = \<bar>rounded q\<bar>"
        using rounded_nonneg[of q] rounded_nonpos[of q] rounded_minus[of q]
        by (cases "0 \<le> q") (simp_all add: abs_if)
      ultimately show False using assms by simp
    qed
    with ml elo v show ?thesis unfolding is_double_def by blast
  qed
qed


subsection \<open>The error of one rounding\<close>

text \<open>
  A rounding moves a number by at most half a spacing: by a \<open>2 ^ 53\<close>-th of its magnitude
  in the normal range, by \<open>1 / 2 ^ 1075\<close> below it.
\<close>

lemma rounded_half_quantum: "\<bar>rounded q - q\<bar> \<le> quantum q / 2"
proof -
  have u: "0 < quantum q" by simp
  have "\<bar>rounded q - q\<bar> = \<bar>of_int (round_half_even (q / quantum q)) - q / quantum q\<bar> * quantum q"
    unfolding rounded_def by (rule abs_scale[OF u])
  also have "\<dots> \<le> 1 / 2 * quantum q"
  proof (rule mult_right_mono)
    show "\<bar>of_int (round_half_even (q / quantum q)) - q / quantum q\<bar> \<le> 1 / 2"
      using round_half_even_near[of "q / quantum q"] by linarith
  qed simp
  finally show ?thesis by simp
qed

lemma rounded_error: "\<bar>rounded q - q\<bar> \<le> \<bar>q\<bar> / 2 ^ 53 + 1 / 2 ^ 1075"
proof (cases "q = 0")
  case True
  then show ?thesis by simp
next
  case False
  then have qpos: "0 < \<bar>q\<bar>" by simp
  have lo: "2 powi ilog2 \<bar>q\<bar> \<le> \<bar>q\<bar>" using qpos by (rule ilog2_bounds)
  show ?thesis
  proof (cases "- 1022 \<le> ilog2 \<bar>q\<bar>")
    case True
    then have "quantum q = 2 powi (ilog2 \<bar>q\<bar> - 52)" by (simp add: quantum_def)
    moreover have "(2::rat) powi ilog2 \<bar>q\<bar> = of_int (2 ^ 52) * 2 powi (ilog2 \<bar>q\<bar> - 52)"
      by (rule powi2_52)
    ultimately have "quantum q / 2 = 2 powi ilog2 \<bar>q\<bar> / 2 ^ 53" by simp
    also have "\<dots> \<le> \<bar>q\<bar> / 2 ^ 53" using lo by (intro divide_right_mono) simp_all
    finally show ?thesis using rounded_half_quantum[of q] by simp
  next
    case False
    then have "quantum q = 2 powi (- 1074)" by (simp add: quantum_def max_def)
    also have "(2::rat) powi (- 1074) = 2 * (1 / 2 ^ 1075)" by (simp add: power_int_minus)
    finally have "quantum q / 2 = 1 / 2 ^ 1075" by simp
    moreover have "0 \<le> \<bar>q\<bar> / 2 ^ 53" by simp
    ultimately show ?thesis using rounded_half_quantum[of q] by linarith
  qed
qed

lemma rounded_bound:
  assumes "\<bar>q\<bar> \<le> B" and "1 \<le> B"
  shows "\<bar>rounded q\<bar> \<le> 2 * B"
proof -
  have "\<bar>q\<bar> / 2 ^ 53 \<le> \<bar>q\<bar> / 2" by (intro divide_left_mono) simp_all
  moreover have "(1::rat) / 2 ^ 1075 \<le> 1 / 2" by (intro divide_left_mono) simp_all
  ultimately show ?thesis using rounded_error[of q] assms by linarith
qed

lemma to_double_finite:
  assumes "\<bar>q\<bar> \<le> 2 ^ 1000"
  shows "to_double q = Fin (rounded q)"
proof -
  have "\<bar>rounded q\<bar> \<le> 2 * 2 ^ 1000" using assms by (rule rounded_bound) simp
  then have "- (2 ^ 1024) < rounded q" "rounded q < 2 ^ 1024" by (simp_all add: abs_le_iff)
  then show ?thesis by (simp add: to_double_def Let_def)
qed

lemma rounded_error_real:
  "\<bar>real_of_rat (rounded q) - real_of_rat q\<bar> \<le> 1 / 2 ^ 53 * \<bar>real_of_rat q\<bar> + 1 / 2 ^ 1075"
proof -
  have "real_of_rat \<bar>rounded q - q\<bar> \<le> real_of_rat (\<bar>q\<bar> / 2 ^ 53 + 1 / 2 ^ 1075)"
    using rounded_error[of q] by (simp only: of_rat_less_eq)
  then show ?thesis
    by (simp add: of_rat_add of_rat_diff of_rat_divide of_rat_power flip: abs_of_rat)
qed


subsection \<open>The integer square root and the square root of a square\<close>

lemma isqrt_correct:
  "0 \<le> n \<Longrightarrow> 0 \<le> isqrt n \<and> isqrt n * isqrt n \<le> n \<and> n < (isqrt n + 1) * (isqrt n + 1)"
proof (induction n rule: isqrt.induct)
  case (1 n)
  show ?case
  proof (cases "n < 2")
    case True
    with 1(2) have "n = 0 \<or> n = 1" by linarith
    moreover have "isqrt n = n" using True by (subst isqrt.simps) simp
    ultimately show ?thesis by auto
  next
    case False
    define h where "h = isqrt (n div 4)"
    from False 1(2) have "0 \<le> n div 4" by simp
    with 1(1)[OF False] have IH: "0 \<le> h" "h * h \<le> n div 4" "n div 4 < (h + 1) * (h + 1)"
      by (simp_all add: h_def)
    have d: "4 * (n div 4) \<le> n" "n < 4 * (n div 4) + 4" by presburger+
    have e1: "(2 * h) * (2 * h) = 4 * (h * h)" by simp
    have e2: "(2 * h + 1 + 1) * (2 * h + 1 + 1) = 4 * ((h + 1) * (h + 1))"
      by (simp add: algebra_simps)
    have e3: "(2 * h + 1) * (2 * h + 1) = 4 * (h * h) + 4 * h + 1"
      by (simp add: algebra_simps)
    have sq: "isqrt n = (if (2 * h + 1) * (2 * h + 1) \<le> n then 2 * h + 1 else 2 * h)"
      using False by (subst isqrt.simps) (simp add: Let_def h_def)
    show ?thesis
    proof (cases "(2 * h + 1) * (2 * h + 1) \<le> n")
      case True
      then have "isqrt n = 2 * h + 1" by (simp add: sq)
      moreover have "n < (2 * h + 1 + 1) * (2 * h + 1 + 1)" unfolding e2 using IH d by linarith
      ultimately show ?thesis using True IH(1) by simp
    next
      case False
      then have "isqrt n = 2 * h" by (simp add: sq)
      moreover have "(2 * h) * (2 * h) \<le> n" unfolding e1 using IH d by linarith
      ultimately show ?thesis using False IH(1) by simp
    qed
  qed
qed

lemma isqrt_unique:
  assumes "0 \<le> r" and "r * r \<le> n" and "n < (r + 1) * (r + 1)"
  shows "isqrt n = r"
proof -
  have "0 \<le> r * r" by simp
  with assms(2) have n: "0 \<le> n" by linarith
  let ?s = "isqrt n"
  from isqrt_correct[OF n]
  have s: "0 \<le> ?s" "?s * ?s \<le> n" "n < (?s + 1) * (?s + 1)" by simp_all
  have "\<not> ?s < r"
  proof
    assume "?s < r"
    then have "?s + 1 \<le> r" by simp
    then have "(?s + 1) * (?s + 1) \<le> r * r" using s(1) by (intro mult_mono) simp_all
    with s(3) assms(2) show False by linarith
  qed
  moreover have "\<not> r < ?s"
  proof
    assume "r < ?s"
    then have "r + 1 \<le> ?s" by simp
    then have "(r + 1) * (r + 1) \<le> ?s * ?s" using assms(1) by (intro mult_mono) simp_all
    with s(2) assms(3) show False by linarith
  qed
  ultimately show ?thesis by simp
qed

lemma sqrt_double_square:
  assumes m: "2 ^ 52 \<le> m" "m < 2 ^ 53" and e: "- 1022 \<le> e" "e \<le> 1023"
    and r: "r = of_int m * 2 powi (e - 52)"
  shows "sqrt_double (r * r) = Fin r"
proof -
  define u :: rat where "u = 2 powi (e - 52)"
  have upos: "0 < u" by (simp add: u_def)
  have ru: "r = of_int m * u" by (simp add: r u_def)
  have mq: "(of_int (2 ^ 52) :: rat) \<le> of_int m" "(of_int m :: rat) < of_int (2 ^ 53)"
    using m by (simp_all only: of_int_le_iff of_int_less_iff)
  have lo: "2 powi e \<le> r"
    unfolding powi2_52[of e] ru u_def[symmetric] using mq(1) upos by (intro mult_right_mono) simp_all
  have hi: "r < 2 powi (e + 1)"
    unfolding powi2_53[of e] ru u_def[symmetric] using mq(2) upos by (intro mult_strict_right_mono)
  have rpos: "0 < r" using lo by (rule less_le_trans[rotated]) simp
  have lo2: "2 powi (2 * e) \<le> r * r"
  proof -
    have "(2::rat) powi (e + e) = 2 powi e * 2 powi e" by (rule power_int_add) simp
    also have "\<dots> \<le> r * r" using rpos by (intro mult_mono lo) simp_all
    finally show ?thesis by simp
  qed
  have hi2: "r * r < 2 powi (2 * e + 2)"
  proof -
    have "r * r < 2 powi (e + 1) * 2 powi (e + 1)"
      using hi rpos by (intro mult_strict_mono) simp_all
    also have "\<dots> = 2 powi ((e + 1) + (e + 1))" by (rule power_int_add[symmetric]) simp
    finally show ?thesis by (simp add: algebra_simps)
  qed
  have r2pos: "0 < r * r" using rpos by simp
  have "(2::rat) powi (2 * e) < 2 powi (ilog2 (r * r) + 1)"
    using lo2 ilog2_bounds(2)[OF r2pos] by linarith
  moreover have "(2::rat) powi ilog2 (r * r) < 2 powi (2 * e + 2)"
    using hi2 ilog2_bounds(1)[OF r2pos] by linarith
  ultimately have "2 * e < ilog2 (r * r) + 1" "ilog2 (r * r) < 2 * e + 2"
    by (simp_all only: powi2_less_iff)
  then have "ilog2 (r * r) div 2 = e" by presburger
  then have ex: "2 powi (max (ilog2 (r * r) div 2) (- 1022) - 52) = u"
    using e(1) by (simp add: u_def)
  have t: "r * r / (u * u) = of_int (m * m)" using upos by (simp add: ru)
  have mnn: "0 \<le> m" using m(1) by (rule order_trans[rotated]) simp
  have isq: "isqrt (m * m) = m" by (rule isqrt_unique[OF mnn]) (insert mnn, simp_all add: algebra_simps)
  have lt: "(of_int (m * m) :: rat) < (of_int m + 1 / 2) * (of_int m + 1 / 2)"
    using mnn by (simp add: algebra_simps)
  have "r < 2 powi (e + 1)" by (rule hi)
  also have "\<dots> \<le> 2 powi 1024" by (rule power_int_increasing) (insert e(2), simp_all)
  finally have small: "\<not> 2 ^ 1024 \<le> r" by simp
  show ?thesis
    unfolding sqrt_double_def ex t Let_def floor_of_int isq using lt small by (simp add: ru)
qed

lemma sqrt_double_nonneg:
  assumes "0 < q"
  shows "js_le (Fin 0) (sqrt_double q)"
proof -
  define u :: rat where "u = 2 powi (max (ilog2 q div 2) (- 1022) - 52)"
  have upos: "0 < u" by (simp add: u_def)
  have "0 \<le> q / (u * u)" using assms upos by (simp add: zero_le_divide_iff)
  then have "0 \<le> \<lfloor>q / (u * u)\<rfloor>" by simp
  then have "0 \<le> isqrt \<lfloor>q / (u * u)\<rfloor>" using isqrt_correct by blast
  then show ?thesis
    using upos unfolding sqrt_double_def u_def[symmetric] Let_def
    by (auto simp: zero_le_mult_iff)
qed

text \<open>
  The result of \<open>sqrt_double\<close> is within half a spacing of the real square root, and
  overflows only if that value reaches \<open>2 ^ 1024\<close>.
\<close>

lemma sqrt_double_value:
  assumes qpos: "0 < q"
  obtains v where "0 \<le> v" and "sqrt_double q = (if 2 ^ 1024 \<le> v then Infinity else Fin v)"
    and "\<bar>real_of_rat v - sqrt (real_of_rat q)\<bar>
         \<le> real_of_rat (2 powi (max (ilog2 q div 2) (- 1022) - 52)) / 2"
proof -
  define u :: rat where "u = 2 powi (max (ilog2 q div 2) (- 1022) - 52)"
  define t where "t = q / (u * u)"
  define m where "m = isqrt \<lfloor>t\<rfloor>"
  define h :: rat where "h = of_int m + 1 / 2"
  define m' where "m' = (if t < h * h then m else if h * h < t then m + 1
      else if even m then m else m + 1)"
  define v :: rat where "v = of_int m' * u"
  have upos: "0 < u" by (simp add: u_def)
  have res: "sqrt_double q = (if 2 ^ 1024 \<le> v then Infinity else Fin v)"
    unfolding sqrt_double_def u_def[symmetric] Let_def t_def[symmetric]
      m_def[symmetric] h_def[symmetric] m'_def[symmetric] v_def[symmetric] ..
  have tnn: "0 \<le> t" using qpos upos by (simp add: t_def zero_le_divide_iff)
  then have "0 \<le> \<lfloor>t\<rfloor>" by simp
  from isqrt_correct[OF this]
  have m: "0 \<le> m" "m * m \<le> \<lfloor>t\<rfloor>" "\<lfloor>t\<rfloor> < (m + 1) * (m + 1)" by (simp_all add: m_def)
  have "0 \<le> m'" using m(1) by (simp add: m'_def)
  then have vnn: "0 \<le> v" using upos by (simp add: v_def)
  have lo: "of_int (m * m) \<le> t"
  proof -
    have "(of_int (m * m) :: rat) \<le> of_int \<lfloor>t\<rfloor>" using m(2) by (simp only: of_int_le_iff)
    also have "\<dots> \<le> t" by simp
    finally show ?thesis .
  qed
  have hi: "t < of_int ((m + 1) * (m + 1))"
  proof -
    have "t < of_int \<lfloor>t\<rfloor> + 1" by linarith
    also have "\<dots> = of_int (\<lfloor>t\<rfloor> + 1)" by simp
    also have "\<dots> \<le> of_int ((m + 1) * (m + 1))"
    proof -
      have "\<lfloor>t\<rfloor> + 1 \<le> (m + 1) * (m + 1)" using m(3) by simp
      then show ?thesis by (simp only: of_int_le_iff)
    qed
    finally show ?thesis .
  qed
  define T where "T = real_of_rat t"
  define s where "s = sqrt T"
  define H where "H = real_of_int m + 1 / 2"
  have H: "real_of_rat (h * h) = H\<^sup>2"
    by (simp add: h_def H_def of_rat_mult of_rat_add of_rat_divide power2_eq_square)
  have Hnn: "0 \<le> H" using m(1) by (simp add: H_def)
  have "(real_of_int m)\<^sup>2 \<le> T"
    using lo unfolding T_def
    by (metis of_int_mult of_rat_less_eq of_rat_of_int_eq power2_eq_square)
  then have s1: "real_of_int m \<le> s" unfolding s_def by (rule real_le_rsqrt)
  have "T < (real_of_int (m + 1))\<^sup>2"
    using hi unfolding T_def
    by (metis of_int_mult of_rat_less of_rat_of_int_eq power2_eq_square)
  moreover have "0 \<le> real_of_int (m + 1)" using m(1) by simp
  ultimately have s2: "s < real_of_int (m + 1)" unfolding s_def by (intro real_less_lsqrt)
  have near: "\<bar>real_of_int m' - s\<bar> \<le> 1 / 2"
  proof -
    consider "t < h * h" | "h * h < t" | "t = h * h" by linarith
    then show ?thesis
    proof cases
      case 1
      then have "T < H\<^sup>2" unfolding T_def H[symmetric] by (simp only: of_rat_less)
      then have "s < H" unfolding s_def using Hnn by (intro real_less_lsqrt)
      moreover have "m' = m" using 1 by (simp add: m'_def)
      ultimately show ?thesis using s1 by (simp add: H_def)
    next
      case 2
      then have "H\<^sup>2 < T" unfolding T_def H[symmetric] by (simp only: of_rat_less)
      then have "H < s" unfolding s_def by (rule real_less_rsqrt)
      moreover have "m' = m + 1" using 2 by (simp add: m'_def)
      ultimately show ?thesis using s2 by (simp add: H_def)
    next
      case 3
      then have "T = H\<^sup>2" unfolding T_def H[symmetric] by simp
      then have "s = H" unfolding s_def using Hnn by simp
      moreover have "m' = m \<or> m' = m + 1" by (simp add: m'_def)
      ultimately show ?thesis by (auto simp: H_def)
    qed
  qed
  define U where "U = real_of_rat u"
  have Upos: "0 < U" using upos by (simp add: U_def)
  have "q = t * (u * u)" using upos by (simp add: t_def)
  then have "real_of_rat q = T * (U * U)" by (simp add: T_def U_def of_rat_mult)
  then have sq: "sqrt (real_of_rat q) = s * U"
    using Upos by (simp add: s_def real_sqrt_mult)
  have "real_of_rat v = real_of_int m' * U" by (simp add: v_def U_def of_rat_mult)
  then have "real_of_rat v - sqrt (real_of_rat q) = (real_of_int m' - s) * U"
    by (simp add: sq algebra_simps)
  then have "\<bar>real_of_rat v - sqrt (real_of_rat q)\<bar> = \<bar>real_of_int m' - s\<bar> * U"
    using Upos by (simp add: abs_mult)
  also have "\<dots> \<le> 1 / 2 * U" using near Upos by (intro mult_right_mono) simp_all
  finally have "\<bar>real_of_rat v - sqrt (real_of_rat q)\<bar>
      \<le> real_of_rat (2 powi (max (ilog2 q div 2) (- 1022) - 52)) / 2"
    by (simp add: U_def u_def)
  with vnn res show ?thesis by (rule that)
qed

proposition sqrt_double_nearest:
  assumes qpos: "0 < q" and res: "sqrt_double q = Fin v"
  shows "\<bar>real_of_rat v - sqrt (real_of_rat q)\<bar>
         \<le> real_of_rat (2 powi (max (ilog2 q div 2) (- 1022) - 52)) / 2"
proof -
  from sqrt_double_value[OF qpos] obtain w
    where w: "sqrt_double q = (if 2 ^ 1024 \<le> w then Infinity else Fin w)"
      and e: "\<bar>real_of_rat w - sqrt (real_of_rat q)\<bar>
         \<le> real_of_rat (2 powi (max (ilog2 q div 2) (- 1022) - 52)) / 2"
    by blast
  from w res have "w = v" by (simp split: if_splits)
  with e show ?thesis by simp
qed

lemma sqrt_double_error:
  assumes qpos: "0 < q" and qle: "q \<le> 2 ^ 2000"
  obtains v where "0 \<le> v" and "sqrt_double q = Fin v"
    and "\<bar>real_of_rat v - sqrt (real_of_rat q)\<bar>
         \<le> 1 / 2 ^ 53 * sqrt (real_of_rat q) + 1 / 2 ^ 1075"
proof -
  define e where "e = ilog2 q div 2"
  define S where "S = sqrt (real_of_rat q)"
  have S0: "0 \<le> S" using qpos by (simp add: S_def)
  from sqrt_double_value[OF qpos] obtain v
    where vnn: "0 \<le> v"
      and res: "sqrt_double q = (if 2 ^ 1024 \<le> v then Infinity else Fin v)"
      and err: "\<bar>real_of_rat v - S\<bar> \<le> real_of_rat (2 powi (max e (- 1022) - 52)) / 2"
    unfolding e_def S_def by blast
  have half: "real_of_rat (2 powi (max e (- 1022) - 52)) / 2 \<le> 1 / 2 ^ 53 * S + 1 / 2 ^ 1075"
  proof (cases "- 1022 \<le> e")
    case True
    define p :: rat where "p = 2 powi e"
    have ppos: "0 < p" by (simp add: p_def)
    have "p * p = 2 powi (e + e)" unfolding p_def by (rule power_int_add[symmetric]) simp
    also have "\<dots> \<le> 2 powi ilog2 q" by (simp only: powi2_le_iff) (simp add: e_def)
    also have "\<dots> \<le> q" using qpos by (rule ilog2_bounds)
    finally have "real_of_rat (p * p) \<le> real_of_rat q" by (simp only: of_rat_less_eq)
    then have "(real_of_rat p)\<^sup>2 \<le> real_of_rat q" by (simp add: of_rat_mult power2_eq_square)
    then have pS: "real_of_rat p \<le> S" unfolding S_def by (rule real_le_rsqrt)
    define w :: rat where "w = 2 powi (max e (- 1022) - 52)"
    have "p = of_int (2 ^ 52) * 2 powi (e - 52)" unfolding p_def by (rule powi2_52)
    then have "p = 2 ^ 52 * w" using True by (simp add: w_def max_def)
    then have "real_of_rat p = 2 ^ 52 * real_of_rat w" by (simp add: of_rat_mult)
    then have "real_of_rat w / 2 = real_of_rat p / 2 ^ 53" by simp
    also have "\<dots> \<le> S / 2 ^ 53" using pS by (intro divide_right_mono) simp_all
    finally show ?thesis by (simp add: w_def)
  next
    case False
    define w :: rat where "w = 2 powi (max e (- 1022) - 52)"
    from False have "w = 2 powi (- 1074)" by (simp add: w_def max_def)
    also have "(2::rat) powi (- 1074) = 2 * (1 / 2 ^ 1075)" by (simp add: power_int_minus)
    finally have "real_of_rat w = real_of_rat (2 * (1 / 2 ^ 1075))" by simp
    also have "\<dots> = 2 * (1 / 2 ^ 1075)"
      by (simp only: of_rat_mult of_rat_divide of_rat_power of_rat_numeral_eq of_rat_1)
    finally have "real_of_rat w / 2 = 1 / 2 ^ 1075" by simp
    then have "real_of_rat (2 powi (max e (- 1022) - 52)) / 2 = 1 / 2 ^ 1075"
      unfolding w_def .
    moreover have "0 \<le> 1 / 2 ^ 53 * S" using S0 by simp
    ultimately show ?thesis by linarith
  qed
  have "real_of_rat q \<le> real_of_rat (2 ^ 2000)" using qle by (simp only: of_rat_less_eq)
  then have "real_of_rat q \<le> (2 ^ 1000)\<^sup>2" by (simp add: of_rat_power)
  then have "S \<le> 2 ^ 1000" unfolding S_def by (intro real_le_lsqrt) simp_all
  moreover define B :: real where "B = 2 ^ 1000"
  moreover have "1 / 2 ^ 53 * S \<le> 1 * S" using S0 by (intro mult_right_mono) simp_all
  moreover have "(1::real) / 2 ^ 1075 \<le> 1" by simp
  ultimately have "real_of_rat v \<le> 2 * B + 1" using err half by linarith
  also have "\<dots> < 2 ^ 1024" by (simp add: B_def)
  finally have "real_of_rat v < 2 ^ 1024" .
  then have "real_of_rat v < real_of_rat (2 ^ 1024)" by (simp add: of_rat_power)
  then have "v < 2 ^ 1024" by (simp only: of_rat_less)
  then have "sqrt_double q = Fin v" using res by simp
  moreover have "\<bar>real_of_rat v - sqrt (real_of_rat q)\<bar>
      \<le> 1 / 2 ^ 53 * sqrt (real_of_rat q) + 1 / 2 ^ 1075"
    using err half unfolding S_def by linarith
  ultimately show ?thesis using vnn by (intro that)
qed

subsection \<open>Integers, order and the operators\<close>

lemma to_double_int:
  assumes "\<bar>n\<bar> < 2 ^ 53"
  shows "to_double (of_int n) = Fin (of_int n)"
proof (cases "n = 0")
  case True
  then show ?thesis by simp
next
  case False
  define a :: rat where "a = \<bar>of_int n\<bar>"
  have a1: "1 \<le> a" using False unfolding a_def
    by (metis abs_ge_zero int_one_le_iff_zero_less of_int_1 of_int_abs of_int_le_iff
        order_le_less zero_less_abs_iff less_eq_rat_def)
  have a2: "a < 2 powi 53"
  proof -
    have "(of_int \<bar>n\<bar> :: rat) < of_int (2 ^ 53)" using assms by (simp only: of_int_less_iff)
    then show ?thesis by (simp add: a_def)
  qed
  define e where "e = ilog2 a"
  have apos: "0 < a" using a1 by simp
  have b: "2 powi e \<le> a" "a < 2 powi (e + 1)" unfolding e_def using apos by (rule ilog2_bounds)+
  have "(2::rat) powi e < 2 powi 53" using b(1) a2 by linarith
  then have e53: "e < 53" by (simp only: powi2_less_iff)
  have "(2::rat) powi 0 < 2 powi (e + 1)" using b(2) a1 by simp
  then have "0 < e + 1" by (simp only: powi2_less_iff)
  then have e0: "0 \<le> e" by simp
  define k where "k = nat (52 - e)"
  have inv: "(2::rat) powi (e - 52) * 2 ^ k = 1"
  proof -
    have "(2::rat) powi ((e - 52) + int k) = 2 powi (e - 52) * 2 powi int k"
      by (rule power_int_add) simp
    moreover have "(e - 52) + int k = 0" using e53 by (simp add: k_def)
    ultimately show ?thesis by simp
  qed
  have u: "quantum (of_int n) = 2 powi (e - 52)"
    using e0 by (simp add: quantum_def e_def a_def)
  have "of_int n / (2::rat) powi (e - 52) = of_int n * 2 ^ k"
    using inv by (simp add: field_simps)
  also have "\<dots> = of_int (n * 2 ^ k)" by simp
  finally have "round_half_even (of_int n / 2 powi (e - 52)) = n * 2 ^ k"
    by (simp only: round_half_even_of_int)
  then have "rounded (of_int n) = of_int (n * 2 ^ k) * 2 powi (e - 52)"
    by (simp add: rounded_def u)
  also have "\<dots> = of_int n * (2 powi (e - 52) * 2 ^ k)" by simp
  also have "\<dots> = of_int n" by (simp only: inv mult_1_right)
  finally have r: "rounded (of_int n) = of_int n" .
  have "(of_int \<bar>n\<bar> :: rat) < of_int (2 ^ 53)" using assms by (simp only: of_int_less_iff)
  then have "\<bar>of_int n :: rat\<bar> < 2 ^ 1024" by simp
  then have "- (2 ^ 1024) < (of_int n :: rat)" "(of_int n :: rat) < 2 ^ 1024"
    by (simp_all only: abs_less_iff) simp_all
  then show ?thesis by (simp add: to_double_def r)
qed

lemma to_double_numeral [simp]:
  "numeral w < (2 ^ 53 :: int) \<Longrightarrow> to_double (numeral w) = Fin (numeral w)"
  using to_double_int[of "numeral w"] by simp

lemma js_le_refl: "a \<noteq> NaN \<Longrightarrow> js_le a a"
  by (cases a) simp_all

lemma js_le_trans: "js_le a b \<Longrightarrow> js_le b c \<Longrightarrow> js_le a c"
  by (cases a; cases b; cases c) simp_all

lemma js_le_total: "a \<noteq> NaN \<Longrightarrow> b \<noteq> NaN \<Longrightarrow> js_le a b \<or> js_le b a"
  by (cases a; cases b) auto

lemma js_le_not_NaN: "js_le a b \<Longrightarrow> a \<noteq> NaN \<and> b \<noteq> NaN"
  by (cases a; cases b) simp_all

lemma not_js_le: "a \<noteq> NaN \<Longrightarrow> b \<noteq> NaN \<Longrightarrow> \<not> js_le a b \<Longrightarrow> js_lt b a"
  by (cases a; cases b) auto

lemma Math_min_Infinity_right [simp]: "Math_min a Infinity = a"
  by (cases a) simp_all

lemma Math_min_Infinity_left [simp]: "Math_min Infinity b = b"
  by (cases b) simp_all

lemma Math_min_if: "a \<noteq> NaN \<Longrightarrow> b \<noteq> NaN \<Longrightarrow> Math_min a b = (if js_le a b then a else b)"
  by (cases a; cases b) simp_all

lemma js_strict_eq_iff: "js_strict_eq a b \<longleftrightarrow> a \<noteq> NaN \<and> a = b"
  by (cases a; cases b) auto

lemma js_square_nonneg: "a \<noteq> NaN \<Longrightarrow> js_le (Fin 0) (js_square a)"
  by (cases a) (simp_all add: to_double_nonneg)

lemma js_add_nonneg: "js_le (Fin 0) a \<Longrightarrow> js_le (Fin 0) b \<Longrightarrow> js_le (Fin 0) (js_add a b)"
  by (cases a; cases b) (simp_all add: to_double_nonneg)

lemma Math_sqrt_nonneg: "js_le (Fin 0) a \<Longrightarrow> js_le (Fin 0) (Math_sqrt a)"
  by (cases a) (simp_all add: sqrt_double_nonneg)

lemma js_sub_finite: "isFinite a \<Longrightarrow> isFinite b \<Longrightarrow> js_sub a b \<noteq> NaN"
  by (cases a; cases b) simp_all

lemma euclideanDistance_nonneg:
  assumes "finite_position a" and "finite_position b"
  shows "js_le (Fin 0) (euclideanDistance a b)"
  unfolding euclideanDistance_def using assms
  by (intro Math_sqrt_nonneg js_add_nonneg js_square_nonneg js_sub_finite)
     (simp_all add: finite_position_def)

lemma distLeft_nonneg:
  assumes "kp ''nose'' = Some nose" and "finite_keypoints kp"
  shows "js_le (Fin 0) (distLeft kp nose)"
proof (cases "kp ''leftWrist''")
  case None
  then show ?thesis by (simp add: distLeft_def)
next
  case (Some w)
  with assms have "finite_position w" "finite_position nose" by (auto simp: finite_keypoints_def)
  then show ?thesis using Some by (simp add: distLeft_def euclideanDistance_nonneg)
qed

lemma distRight_nonneg:
  assumes "kp ''nose'' = Some nose" and "finite_keypoints kp"
  shows "js_le (Fin 0) (distRight kp nose)"
proof (cases "kp ''rightWrist''")
  case None
  then show ?thesis by (simp add: distRight_def)
next
  case (Some w)
  with assms have "finite_position w" "finite_position nose" by (auto simp: finite_keypoints_def)
  then show ?thesis using Some by (simp add: distRight_def euclideanDistance_nonneg)
qed

lemma to_double_neg_numeral [simp]:
  "numeral w < (2 ^ 53 :: int) \<Longrightarrow> to_double (- numeral w) = Fin (- numeral w)"
  using to_double_int[of "- numeral w"] by simp

lemma ACCEPTANCE_THRESHOLD_value:
  "ACCEPTANCE_THRESHOLD = Fin (3602879701896397 / 36028797018963968)"
  unfolding ACCEPTANCE_THRESHOLD_def by (rule to_double_tenth)

lemma sqrt_double_100: "sqrt_double 100 = Fin 10"
  using sqrt_double_square[where m = "10 * 2 ^ 49" and e = 3 and r = 10] by simp

lemma sqrt_double_400: "sqrt_double 400 = Fin 20"
  using sqrt_double_square[where m = "20 * 2 ^ 48" and e = 4 and r = 20] by simp

lemma sqrt_double_245025: "sqrt_double 245025 = Fin 495"
  using sqrt_double_square[where m = "495 * 2 ^ 44" and e = 8 and r = 495] by simp

lemma confidenceDecimal_495:
  "confidenceDecimal (Fin 495) = Fin (900719925474099 / 9007199254740992)"
proof -
  have "to_double (900719925474099 / 9007199254740992)
      = Fin (900719925474099 / 9007199254740992)"
    by (rule to_double_eval[where e = "- 4"]) (simp_all add: round_half_even_def Let_def)
  then show ?thesis
    by (simp add: confidenceDecimal_def THRESHOLD_DISTANCE_def to_double_nine_tenths)
qed

lemma confidenceDecimal_20:
  "confidenceDecimal (Fin 20) = Fin (4339832368193387 / 4503599627370496)"
proof -
  have a: "to_double (2 / 55) = Fin (2620276146833743 / 72057594037927936)"
    by (rule to_double_eval[where e = "- 5"]) (simp_all add: round_half_even_def Let_def)
  have b: "to_double (69437317891094193 / 72057594037927936)
      = Fin (4339832368193387 / 4503599627370496)"
    by (rule to_double_eval[where e = "- 1"]) (simp_all add: round_half_even_def Let_def)
  show ?thesis
    by (simp add: confidenceDecimal_def THRESHOLD_DISTANCE_def a b)
qed


subsection \<open>The confidence as a function of the distance\<close>

lemma js_le_NegInfinity: "b \<noteq> NaN \<Longrightarrow> js_le NegInfinity b"
  by (cases b) simp_all

lemma js_le_Infinity: "a \<noteq> NaN \<Longrightarrow> js_le a Infinity"
  by (cases a) simp_all

lemma js_div_threshold_mono:
  assumes "js_le a b"
  shows "js_le (js_div a THRESHOLD_DISTANCE) (js_div b THRESHOLD_DISTANCE)"
proof (cases a; cases b)
  fix p q assume "a = Fin p" "b = Fin q"
  with assms have "p / 550 \<le> q / 550" by (simp add: divide_right_mono)
  then show ?thesis using \<open>a = Fin p\<close> \<open>b = Fin q\<close>
    by (simp add: THRESHOLD_DISTANCE_def to_double_mono)
qed (use assms in \<open>simp_all add: THRESHOLD_DISTANCE_def js_le_NegInfinity js_le_Infinity\<close>)

lemma js_sub_one_antimono:
  assumes "js_le a b"
  shows "js_le (js_sub (Fin 1) b) (js_sub (Fin 1) a)"
proof (cases a; cases b)
  fix p q assume "a = Fin p" "b = Fin q"
  with assms have "1 - q \<le> 1 - p" by simp
  then show ?thesis using \<open>a = Fin p\<close> \<open>b = Fin q\<close> by (simp add: to_double_mono)
qed (use assms in \<open>simp_all add: js_le_NegInfinity js_le_Infinity\<close>)

lemma Math_max_zero_mono:
  assumes "js_le a b"
  shows "js_le (Math_max (Fin 0) a) (Math_max (Fin 0) b)"
  using assms by (cases a; cases b) auto

lemma confidenceDecimal_antimono:
  "js_le d1 d2 \<Longrightarrow> js_le (confidenceDecimal d2) (confidenceDecimal d1)"
  unfolding confidenceDecimal_def
  by (intro Math_max_zero_mono js_sub_one_antimono js_div_threshold_mono)

lemma confidenceDecimal_Infinity: "confidenceDecimal Infinity = Fin 0"
  by (simp add: confidenceDecimal_def THRESHOLD_DISTANCE_def)

lemma confidenceDecimal_0: "confidenceDecimal (Fin 0) = Fin 1"
  by (simp add: confidenceDecimal_def THRESHOLD_DISTANCE_def to_double_1)

lemma confidenceDecimal_range:
  assumes "js_le (Fin 0) d"
  shows "js_le (Fin 0) (confidenceDecimal d)" and "js_le (confidenceDecimal d) (Fin 1)"
proof -
  from assms have "d \<noteq> NaN" using js_le_not_NaN by blast
  then have "js_le d Infinity" by (rule js_le_Infinity)
  then show "js_le (Fin 0) (confidenceDecimal d)"
    using confidenceDecimal_antimono[of d Infinity] by (simp add: confidenceDecimal_Infinity)
  show "js_le (confidenceDecimal d) (Fin 1)"
    using confidenceDecimal_antimono[OF assms] by (simp add: confidenceDecimal_0)
qed


subsection \<open>The keypoint filter\<close>

lemma collect_keypoints_ignores_score:
  assumes "map (\<lambda>p. (part p, position p)) ps = map (\<lambda>p. (part p, position p)) ps'"
  shows "collect_keypoints ps kp = collect_keypoints ps' kp"
  using assms
proof (induction ps arbitrary: ps' kp)
  case Nil
  then show ?case by simp
next
  case (Cons p ps)
  then obtain p' qs where ps': "ps' = p' # qs" by (cases ps') auto
  with Cons.prems have h: "part p = part p'" "position p = position p'"
    and t: "map (\<lambda>p. (part p, position p)) ps = map (\<lambda>p. (part p, position p)) qs"
    by simp_all
  have "collect_keypoints (p # ps) kp =
      collect_keypoints ps
        (if part p \<in> set [''nose'', ''leftWrist'', ''rightWrist'']
         then kp(part p \<mapsto> position p) else kp)"
    by (simp only: collect_keypoints.simps)
  also have "\<dots> =
      collect_keypoints qs
        (if part p' \<in> set [''nose'', ''leftWrist'', ''rightWrist'']
         then kp(part p' \<mapsto> position p') else kp)"
    unfolding h by (rule Cons.IH[OF t])
  also have "\<dots> = collect_keypoints (p' # qs) kp"
    by (simp only: collect_keypoints.simps)
  finally show ?case unfolding ps' .
qed


section \<open>The computed distance and the true distance\<close>

subsection \<open>The error of the rounded operations\<close>

text \<open>
  The distance is computed by two subtractions, two squares, a sum and a square root,
  each rounded. With a relative error \<open>u\<close> and an absolute error \<open>\<eta>\<close> in each, the result
  differs from the true distance \<open>D\<close> by at most \<open>4 * u * D + 8 * sqrt \<eta>\<close>.
\<close>

lemma sqrt_scaled_sum_squares:
  fixes a x y :: real
  assumes "0 \<le> a"
  shows "sqrt ((a * x)\<^sup>2 + (a * y)\<^sup>2) = a * sqrt (x\<^sup>2 + y\<^sup>2)"
proof -
  have "(a * x)\<^sup>2 + (a * y)\<^sup>2 = a\<^sup>2 * (x\<^sup>2 + y\<^sup>2)"
    by (simp add: power_mult_distrib distrib_left)
  then show ?thesis using assms by (simp add: real_sqrt_mult)
qed

lemma sqrt_sum_squares_mono:
  fixes a b c d :: real
  assumes "0 \<le> a" "a \<le> c" "0 \<le> b" "b \<le> d"
  shows "sqrt (a\<^sup>2 + b\<^sup>2) \<le> sqrt (c\<^sup>2 + d\<^sup>2)"
proof -
  have "a\<^sup>2 \<le> c\<^sup>2" "b\<^sup>2 \<le> d\<^sup>2" using assms by (simp_all add: power_mono)
  then show ?thesis by (intro real_sqrt_le_mono) linarith
qed

lemma sqrt_shifted_sum_squares:
  fixes a b h :: real
  assumes "0 \<le> h"
  shows "sqrt ((a + h)\<^sup>2 + (b + h)\<^sup>2) \<le> sqrt (a\<^sup>2 + b\<^sup>2) + 2 * h"
proof -
  have "sqrt ((a + h)\<^sup>2 + (b + h)\<^sup>2) \<le> sqrt (a\<^sup>2 + b\<^sup>2) + sqrt (h\<^sup>2 + h\<^sup>2)"
    by (rule real_sqrt_sum_squares_triangle_ineq)
  moreover have "sqrt (h\<^sup>2 + h\<^sup>2) \<le> h + h" using assms by (intro sqrt_sum_squares_le_sum)
  ultimately show ?thesis by linarith
qed

lemma hypot_error:
  fixes u \<eta> x y r1 r2 sx sy s d :: real
  assumes u: "0 \<le> u" "u \<le> 1 / 4" and \<eta>: "0 \<le> \<eta>" "\<eta> \<le> 1"
    and xy: "0 \<le> x" "0 \<le> y"
    and r1: "0 \<le> r1" "\<bar>r1 - x\<bar> \<le> u * x + \<eta>"
    and r2: "0 \<le> r2" "\<bar>r2 - y\<bar> \<le> u * y + \<eta>"
    and sx: "0 \<le> sx" "\<bar>sx - r1\<^sup>2\<bar> \<le> u * r1\<^sup>2 + \<eta>"
    and sy: "0 \<le> sy" "\<bar>sy - r2\<^sup>2\<bar> \<le> u * r2\<^sup>2 + \<eta>"
    and s: "0 \<le> s" "\<bar>s - (sx + sy)\<bar> \<le> u * (sx + sy) + \<eta>"
    and d: "\<bar>d - sqrt s\<bar> \<le> u * sqrt s + \<eta>"
  shows "\<bar>d - sqrt (x\<^sup>2 + y\<^sup>2)\<bar> \<le> 4 * u * sqrt (x\<^sup>2 + y\<^sup>2) + 8 * sqrt \<eta>"
proof -
  define D where "D = sqrt (x\<^sup>2 + y\<^sup>2)"
  define P where "P = sqrt (r1\<^sup>2 + r2\<^sup>2)"
  define e where "e = sqrt \<eta>"
  define a where "a = 1 + u"
  define b where "b = 1 - u"
  have D0: "0 \<le> D" and P0: "0 \<le> P" and e0: "0 \<le> e"
    using \<eta> by (simp_all add: D_def P_def e_def)
  have a: "1 \<le> a" "a \<le> 5 / 4" and b: "3 / 4 \<le> b" "b \<le> 1"
    using u by (simp_all add: a_def b_def)
  have P2: "P\<^sup>2 = r1\<^sup>2 + r2\<^sup>2" by (simp add: P_def)
  have e2: "e\<^sup>2 = \<eta>" using \<eta> by (simp add: e_def)
  have "e \<le> 1" using \<eta> by (simp add: e_def)
  then have "e * e \<le> 1 * e" using e0 by (intro mult_right_mono)
  then have \<eta>e: "\<eta> \<le> e" using e2 by (simp add: power2_eq_square)
  have upP: "P \<le> a * D + 2 * \<eta>"
  proof -
    have "r1 \<le> a * x + \<eta>" "r2 \<le> a * y + \<eta>"
      using r1 r2 by (simp_all add: a_def algebra_simps abs_le_iff)
    then have "P \<le> sqrt ((a * x + \<eta>)\<^sup>2 + (a * y + \<eta>)\<^sup>2)"
      unfolding P_def using r1(1) r2(1) by (intro sqrt_sum_squares_mono)
    also have "\<dots> \<le> sqrt ((a * x)\<^sup>2 + (a * y)\<^sup>2) + 2 * \<eta>"
      using \<eta>(1) by (rule sqrt_shifted_sum_squares)
    also have "sqrt ((a * x)\<^sup>2 + (a * y)\<^sup>2) = a * D"
      unfolding D_def using a by (intro sqrt_scaled_sum_squares) simp
    finally show ?thesis .
  qed
  have loP: "b * D - 2 * \<eta> \<le> P"
  proof -
    define c1 where "c1 = max 0 (b * x - \<eta>)"
    define c2 where "c2 = max 0 (b * y - \<eta>)"
    have c1: "0 \<le> c1" "c1 \<le> r1" "b * x \<le> c1 + \<eta>"
      using r1 by (simp_all add: c1_def b_def algebra_simps abs_le_iff)
    have c2: "0 \<le> c2" "c2 \<le> r2" "b * y \<le> c2 + \<eta>"
      using r2 by (simp_all add: c2_def b_def algebra_simps abs_le_iff)
    have bx: "0 \<le> b * x" "0 \<le> b * y" using b xy by simp_all
    have "b * D = sqrt ((b * x)\<^sup>2 + (b * y)\<^sup>2)"
      unfolding D_def using b by (intro sqrt_scaled_sum_squares[symmetric]) simp
    also have "\<dots> \<le> sqrt ((c1 + \<eta>)\<^sup>2 + (c2 + \<eta>)\<^sup>2)"
      using bx c1(3) c2(3) by (intro sqrt_sum_squares_mono)
    also have "\<dots> \<le> sqrt (c1\<^sup>2 + c2\<^sup>2) + 2 * \<eta>"
      using \<eta>(1) by (rule sqrt_shifted_sum_squares)
    also have "sqrt (c1\<^sup>2 + c2\<^sup>2) \<le> P"
      unfolding P_def using c1 c2 by (intro sqrt_sum_squares_mono)
    finally show ?thesis by simp
  qed
  have ups: "s \<le> (a * P)\<^sup>2 + 4 * \<eta>"
  proof -
    have "sx \<le> a * r1\<^sup>2 + \<eta>" "sy \<le> a * r2\<^sup>2 + \<eta>"
      using sx sy by (simp_all add: a_def algebra_simps abs_le_iff)
    then have q: "sx + sy \<le> a * P\<^sup>2 + 2 * \<eta>" by (simp add: P2 algebra_simps)
    have "s \<le> a * (sx + sy) + \<eta>" using s by (simp add: a_def algebra_simps abs_le_iff)
    also have "a * (sx + sy) \<le> a * (a * P\<^sup>2 + 2 * \<eta>)"
      using q a by (intro mult_left_mono) simp_all
    also have "a * (a * P\<^sup>2 + 2 * \<eta>) = (a * P)\<^sup>2 + 2 * (a * \<eta>)"
      by (simp add: power2_eq_square algebra_simps)
    also have "a * \<eta> \<le> 5 / 4 * \<eta>" using a \<eta> by (intro mult_right_mono) simp_all
    finally show ?thesis using \<eta> by simp
  qed
  have los: "(b * P)\<^sup>2 \<le> s + 3 * \<eta>"
  proof -
    have "b * r1\<^sup>2 - \<eta> \<le> sx" "b * r2\<^sup>2 - \<eta> \<le> sy"
      using sx sy by (simp_all add: b_def algebra_simps abs_le_iff)
    then have q: "b * P\<^sup>2 - 2 * \<eta> \<le> sx + sy" by (simp add: P2 algebra_simps)
    have "b * (b * P\<^sup>2 - 2 * \<eta>) \<le> b * (sx + sy)"
      using q b by (intro mult_left_mono) simp_all
    moreover have "b * (b * P\<^sup>2 - 2 * \<eta>) = (b * P)\<^sup>2 - 2 * (b * \<eta>)"
      by (simp add: power2_eq_square algebra_simps)
    moreover have "b * \<eta> \<le> 1 * \<eta>" using b \<eta> by (intro mult_right_mono) simp_all
    moreover have "b * (sx + sy) - \<eta> \<le> s" using s by (simp add: b_def algebra_simps abs_le_iff)
    ultimately show ?thesis by linarith
  qed
  have s4: "sqrt (4 * \<eta>) = 2 * e" by (simp add: e_def real_sqrt_mult)
  have upq: "sqrt s \<le> a * P + 2 * e"
  proof -
    have "sqrt s \<le> sqrt ((a * P)\<^sup>2 + 4 * \<eta>)" using ups by (rule real_sqrt_le_mono)
    also have "\<dots> \<le> sqrt ((a * P)\<^sup>2) + sqrt (4 * \<eta>)"
      using \<eta> by (intro sqrt_add_le_add_sqrt) simp_all
    also have "sqrt ((a * P)\<^sup>2) = a * P" using a P0 by simp
    finally show ?thesis by (simp only: s4)
  qed
  have loq: "b * P \<le> sqrt s + 2 * e"
  proof -
    have "b * P = sqrt ((b * P)\<^sup>2)" using b P0 by simp
    also have "\<dots> \<le> sqrt (s + 3 * \<eta>)" using los by (rule real_sqrt_le_mono)
    also have "\<dots> \<le> sqrt (s + 4 * \<eta>)" using \<eta> by (intro real_sqrt_le_mono) simp
    also have "\<dots> \<le> sqrt s + sqrt (4 * \<eta>)"
      using \<eta> s by (intro sqrt_add_le_add_sqrt) simp_all
    finally show ?thesis by (simp only: s4)
  qed
  have q0: "0 \<le> sqrt s" using s by simp
  have a3: "a * (a * a) \<le> 1 + 4 * u"
  proof -
    have "u * u \<le> 1 / 4 * u" using u by (intro mult_right_mono) simp_all
    moreover have "u * (u * u) \<le> 1 / 4 * (1 / 4 * u)"
      using u \<open>u * u \<le> 1 / 4 * u\<close> by (intro mult_mono) simp_all
    moreover have "a * (a * a) = 1 + 3 * u + 3 * (u * u) + u * (u * u)"
      by (simp add: a_def algebra_simps)
    ultimately show ?thesis using u by linarith
  qed
  have up: "d \<le> D + 4 * u * D + 8 * e"
  proof -
    have "d \<le> a * sqrt s + \<eta>" using d by (simp add: a_def algebra_simps abs_le_iff)
    moreover have "a * sqrt s \<le> a * (a * P + 2 * e)"
      using upq a by (intro mult_left_mono) simp_all
    moreover have "a * (a * P + 2 * e) = a * a * P + 2 * (a * e)" by (simp add: algebra_simps)
    moreover have "a * e \<le> 5 / 4 * e" using a e0 by (intro mult_right_mono) simp_all
    moreover have "a * a * P \<le> a * a * (a * D + 2 * \<eta>)"
      using upP a by (intro mult_left_mono) simp_all
    moreover have "a * a * (a * D + 2 * \<eta>) = a * (a * a) * D + 2 * (a * a * \<eta>)"
      by (simp add: algebra_simps)
    moreover have "a * a \<le> 5 / 4 * (5 / 4)" using a by (intro mult_mono) simp_all
    then have "a * a * \<eta> \<le> 5 / 4 * (5 / 4) * \<eta>" using \<eta> by (intro mult_right_mono) simp_all
    moreover have "a * (a * a) * D \<le> (1 + 4 * u) * D" using a3 D0 by (intro mult_right_mono)
    moreover have "(1 + 4 * u) * D = D + 4 * u * D" by (simp add: algebra_simps)
    ultimately show ?thesis using \<eta>e e0 by linarith
  qed
  have b3: "1 - 3 * u \<le> b * (b * b)"
  proof -
    have "u * (u * u) \<le> 1 * (u * u)" using u by (intro mult_right_mono) simp_all
    moreover have "b * (b * b) = 1 - 3 * u + 3 * (u * u) - u * (u * u)"
      by (simp add: b_def algebra_simps)
    moreover have "0 \<le> u * u" by simp
    ultimately show ?thesis using u by linarith
  qed
  have lo: "D - 4 * u * D - 8 * e \<le> d"
  proof -
    have "b * sqrt s - \<eta> \<le> d" using d by (simp add: b_def algebra_simps abs_le_iff)
    moreover have "b * (b * P - 2 * e) \<le> b * sqrt s"
      using loq b by (intro mult_left_mono) simp_all
    moreover have "b * (b * P - 2 * e) = b * b * P - 2 * (b * e)" by (simp add: algebra_simps)
    moreover have "b * e \<le> 1 * e" using b e0 by (intro mult_right_mono) simp_all
    moreover have "b * b * (b * D - 2 * \<eta>) \<le> b * b * P"
      using loP b by (intro mult_left_mono) simp_all
    moreover have "b * b * (b * D - 2 * \<eta>) = b * (b * b) * D - 2 * (b * b * \<eta>)"
      by (simp add: algebra_simps)
    moreover have "b * b \<le> 1 * 1" using b by (intro mult_mono) simp_all
    then have "b * b * \<eta> \<le> 1 * 1 * \<eta>" using \<eta> by (intro mult_right_mono) simp_all
    moreover have "(1 - 3 * u) * D \<le> b * (b * b) * D" using b3 D0 by (intro mult_right_mono)
    moreover have "(1 - 3 * u) * D = D - 3 * u * D" by (simp add: algebra_simps)
    moreover have "0 \<le> u * D" using u D0 by simp
    ultimately show ?thesis using \<eta>e e0 by linarith
  qed
  from up lo show ?thesis unfolding D_def[symmetric] e_def[symmetric] by (simp add: abs_le_iff)
qed

lemma sqrt_eta: "8 * sqrt (1 / 2 ^ 1075) \<le> (1::real) / 2 ^ 534"
proof -
  have "sqrt (1 / 2 ^ 1075) \<le> sqrt ((1 / 2 ^ 537)\<^sup>2 :: real)"
    by (intro real_sqrt_le_mono) (simp add: power_divide)
  also have "\<dots> = 1 / 2 ^ 537" by simp
  finally show ?thesis by simp
qed

lemma square_step:
  fixes r :: rat
  assumes "\<bar>r\<bar> \<le> B"
  shows "0 \<le> r * r" and "\<bar>r * r\<bar> \<le> B * B"
proof -
  show "0 \<le> r * r" by simp
  have "\<bar>r\<bar> * \<bar>r\<bar> \<le> B * B" using assms by (intro mult_mono) simp_all
  then show "\<bar>r * r\<bar> \<le> B * B" by (simp add: abs_mult)
qed

text \<open>
  The distance as computed from four coordinates of magnitude at most \<open>2 ^ 60\<close>: no
  operation overflows, and the result is within the tolerance of the true distance.
\<close>

lemma distance_error:
  fixes x1 x2 y1 y2 :: rat
  assumes b: "\<bar>x1\<bar> \<le> 2 ^ 60" "\<bar>x2\<bar> \<le> 2 ^ 60" "\<bar>y1\<bar> \<le> 2 ^ 60" "\<bar>y2\<bar> \<le> 2 ^ 60"
  shows "\<exists>m. Math_sqrt (js_add (js_square (js_sub (Fin x1) (Fin x2)))
                              (js_square (js_sub (Fin y1) (Fin y2)))) = Fin m
           \<and> 0 \<le> m \<and> m \<le> 2 ^ 65
           \<and> \<bar>real_of_rat m
                - sqrt ((real_of_rat x1 - real_of_rat x2)\<^sup>2 + (real_of_rat y1 - real_of_rat y2)\<^sup>2)\<bar>
              \<le> sqrt ((real_of_rat x1 - real_of_rat x2)\<^sup>2 + (real_of_rat y1 - real_of_rat y2)\<^sup>2)
                   / 2 ^ 51 + 1 / 2 ^ 534"
proof -
  define dx dy where "dx = x1 - x2" and "dy = y1 - y2"
  define r1 r2 where "r1 = rounded dx" and "r2 = rounded dy"
  define sx sy where "sx = rounded (r1 * r1)" and "sy = rounded (r2 * r2)"
  define s where "s = rounded (sx + sy)"
  define u \<eta> :: real where "u = 1 / 2 ^ 53" and "\<eta> = 1 / 2 ^ 1075"
  define D where
    "D = sqrt ((real_of_rat x1 - real_of_rat x2)\<^sup>2 + (real_of_rat y1 - real_of_rat y2)\<^sup>2)"
  have dxb: "\<bar>dx\<bar> \<le> 2 ^ 61" "\<bar>dy\<bar> \<le> 2 ^ 61" using b by (simp_all add: dx_def dy_def)
  have r1b: "\<bar>r1\<bar> \<le> 2 ^ 62" "\<bar>r2\<bar> \<le> 2 ^ 62"
    using rounded_bound[OF dxb(1)] rounded_bound[OF dxb(2)] by (simp_all add: r1_def r2_def)
  have q1: "0 \<le> r1 * r1" "\<bar>r1 * r1\<bar> \<le> 2 ^ 124" "0 \<le> r2 * r2" "\<bar>r2 * r2\<bar> \<le> 2 ^ 124"
    using square_step[OF r1b(1)] square_step[OF r1b(2)] by simp_all
  have sxnn: "0 \<le> sx" "0 \<le> sy"
    unfolding sx_def sy_def by (intro rounded_nonneg q1(1) q1(3))+
  have sxb: "\<bar>sx\<bar> \<le> 2 ^ 125" "\<bar>sy\<bar> \<le> 2 ^ 125"
    using rounded_bound[OF q1(2)] rounded_bound[OF q1(4)] by (simp_all add: sx_def sy_def)
  have sumb: "0 \<le> sx + sy" "\<bar>sx + sy\<bar> \<le> 2 ^ 126" using sxnn sxb by simp_all
  have snn: "0 \<le> s" unfolding s_def by (rule rounded_nonneg[OF sumb(1)])
  have sb: "\<bar>s\<bar> \<le> 2 ^ 127" using rounded_bound[OF sumb(2)] by (simp add: s_def)
  have sub: "js_sub (Fin x1) (Fin x2) = Fin r1" "js_sub (Fin y1) (Fin y2) = Fin r2"
    using dxb by (simp_all add: to_double_finite dx_def dy_def r1_def r2_def)
  have sq: "js_square (Fin r1) = Fin sx" "js_square (Fin r2) = Fin sy"
    using q1 by (simp_all add: to_double_finite sx_def sy_def)
  have add: "js_add (Fin sx) (Fin sy) = Fin s"
    using sumb by (simp add: to_double_finite s_def)
  have comp: "Math_sqrt (js_add (js_square (js_sub (Fin x1) (Fin x2)))
      (js_square (js_sub (Fin y1) (Fin y2)))) = (if s = 0 then Fin 0 else sqrt_double s)"
    unfolding sub sq add using snn by simp
  have e1: "\<bar>\<bar>real_of_rat r1\<bar> - \<bar>real_of_rat dx\<bar>\<bar> \<le> u * \<bar>real_of_rat dx\<bar> + \<eta>"
    using rounded_error_real[of dx] unfolding r1_def u_def \<eta>_def by linarith
  have e2: "\<bar>\<bar>real_of_rat r2\<bar> - \<bar>real_of_rat dy\<bar>\<bar> \<le> u * \<bar>real_of_rat dy\<bar> + \<eta>"
    using rounded_error_real[of dy] unfolding r2_def u_def \<eta>_def by linarith
  have sqr: "\<bar>real_of_rat r\<bar>\<^sup>2 = real_of_rat (r * r)" for r :: rat
    by (simp only: power2_abs) (simp add: of_rat_mult power2_eq_square)
  have sqn: "\<bar>real_of_rat (r * r)\<bar> = real_of_rat (r * r)" for r :: rat
    by (rule abs_of_nonneg) simp
  have e3: "\<bar>real_of_rat sx - \<bar>real_of_rat r1\<bar>\<^sup>2\<bar> \<le> u * \<bar>real_of_rat r1\<bar>\<^sup>2 + \<eta>"
    using rounded_error_real[of "r1 * r1"] unfolding sqr sqn sx_def u_def \<eta>_def .
  have e4: "\<bar>real_of_rat sy - \<bar>real_of_rat r2\<bar>\<^sup>2\<bar> \<le> u * \<bar>real_of_rat r2\<bar>\<^sup>2 + \<eta>"
    using rounded_error_real[of "r2 * r2"] unfolding sqr sqn sy_def u_def \<eta>_def .
  have "0 \<le> real_of_rat (sx + sy)" using sumb(1) by simp
  then have e5: "\<bar>real_of_rat s - (real_of_rat sx + real_of_rat sy)\<bar>
      \<le> u * (real_of_rat sx + real_of_rat sy) + \<eta>"
    using rounded_error_real[of "sx + sy"] unfolding s_def u_def \<eta>_def
    by (simp add: of_rat_add)
  have Dx: "D = sqrt (\<bar>real_of_rat dx\<bar>\<^sup>2 + \<bar>real_of_rat dy\<bar>\<^sup>2)"
    by (simp add: D_def dx_def dy_def of_rat_diff)
  have Db: "D \<le> 2 ^ 62"
  proof -
    have "real_of_rat \<bar>dx\<bar> \<le> real_of_rat (2 ^ 61)" "real_of_rat \<bar>dy\<bar> \<le> real_of_rat (2 ^ 61)"
      using dxb by (simp_all only: of_rat_less_eq)
    then have "\<bar>real_of_rat dx\<bar> \<le> 2 ^ 61" "\<bar>real_of_rat dy\<bar> \<le> 2 ^ 61"
      by (simp_all add: of_rat_power)
    moreover have "D \<le> \<bar>real_of_rat dx\<bar> + \<bar>real_of_rat dy\<bar>"
      unfolding Dx by (intro sqrt_sum_squares_le_sum) simp_all
    ultimately show ?thesis by simp
  qed
  have D0: "0 \<le> D" by (simp add: D_def)
  have tol: "4 * u * D + 8 * sqrt \<eta> \<le> D / 2 ^ 51 + 1 / 2 ^ 534"
    using sqrt_eta by (simp add: u_def \<eta>_def)
  have ueta: "0 \<le> u" "u \<le> 1 / 4" "0 \<le> \<eta>" "\<eta> \<le> 1" by (simp_all add: u_def \<eta>_def)
  have rnn: "0 \<le> real_of_rat sx" "0 \<le> real_of_rat sy" "0 \<le> real_of_rat s"
    using sxnn snn by simp_all
  have main: "\<bar>real_of_rat m - D\<bar> \<le> D / 2 ^ 51 + 1 / 2 ^ 534"
    if "\<bar>real_of_rat m - sqrt (real_of_rat s)\<bar> \<le> u * sqrt (real_of_rat s) + \<eta>" for m
  proof -
    have "\<bar>real_of_rat m - D\<bar> \<le> 4 * u * D + 8 * sqrt \<eta>"
      unfolding Dx
      by (rule hypot_error[OF ueta abs_ge_zero abs_ge_zero abs_ge_zero e1 abs_ge_zero e2
            rnn(1) e3 rnn(2) e4 rnn(3) e5 that])
    then show ?thesis using tol by (rule order_trans)
  qed
  have mb: "m \<le> 2 ^ 65" if "\<bar>real_of_rat m - D\<bar> \<le> D / 2 ^ 51 + 1 / 2 ^ 534" for m
  proof -
    have "D / 2 ^ 51 \<le> D / 1" using D0 by (intro divide_left_mono) simp_all
    moreover have "(1::real) / 2 ^ 534 \<le> 1" by simp
    ultimately have "real_of_rat m \<le> D + D + 1" using that by linarith
    also have "\<dots> \<le> 2 ^ 62 + 2 ^ 62 + 1" using Db by (intro add_mono) simp_all
    also have "\<dots> \<le> real_of_rat (2 ^ 65)" by (simp add: of_rat_power)
    finally show ?thesis by (simp only: of_rat_less_eq)
  qed
  show ?thesis
  proof (cases "s = 0")
    case True
    have "\<bar>real_of_rat 0 - sqrt (real_of_rat s)\<bar> \<le> u * sqrt (real_of_rat s) + \<eta>"
      by (simp add: True u_def \<eta>_def)
    from main[OF this] show ?thesis
      unfolding comp D_def[symmetric] using True by (intro exI[of _ 0]) simp
  next
    case False
    with snn have spos: "0 < s" by simp
    have "s \<le> 2 ^ 2000" using sb by (simp add: abs_le_iff)
    from sqrt_double_error[OF spos this] obtain v
      where v: "0 \<le> v" "sqrt_double s = Fin v"
        "\<bar>real_of_rat v - sqrt (real_of_rat s)\<bar> \<le> 1 / 2 ^ 53 * sqrt (real_of_rat s) + 1 / 2 ^ 1075"
      by blast
    from v(3) have "\<bar>real_of_rat v - D\<bar> \<le> D / 2 ^ 51 + 1 / 2 ^ 534"
      unfolding u_def[symmetric] \<eta>_def[symmetric] by (rule main)
    with mb[OF this] v(1,2) False show ?thesis
      unfolding comp D_def[symmetric] by (intro exI[of _ v]) simp
  qed
qed

lemma euclideanDistance_error:
  assumes "pixel_position a" and "pixel_position b"
  shows "\<exists>m. euclideanDistance a b = Fin m \<and> 0 \<le> m \<and> m \<le> 2 ^ 65
           \<and> \<bar>real_of_rat m - spec_distance a b\<bar> \<le> spec_distance a b / 2 ^ 51 + 1 / 2 ^ 534"
proof -
  from assms obtain x1 y1 x2 y2
    where a: "pos_x a = Fin x1" "pos_y a = Fin y1" and b: "pos_x b = Fin x2" "pos_y b = Fin y2"
      and bd: "\<bar>x1\<bar> \<le> 2 ^ 60" "\<bar>x2\<bar> \<le> 2 ^ 60" "\<bar>y1\<bar> \<le> 2 ^ 60" "\<bar>y2\<bar> \<le> 2 ^ 60"
    unfolding pixel_position_def
    by (cases "pos_x a"; cases "pos_y a"; cases "pos_x b"; cases "pos_y b") simp_all
  from distance_error[OF bd] show ?thesis
    by (simp add: euclideanDistance_def spec_distance_def a b)
qed

subsection \<open>The minimum and its report\<close>

lemma min_within_tolerance:
  fixes a b A B c :: real
  assumes "\<bar>a - A\<bar> \<le> A / 2 ^ 51 + c" and "\<bar>b - B\<bar> \<le> B / 2 ^ 51 + c"
  shows "\<bar>min a b - min A B\<bar> \<le> min A B / 2 ^ 51 + c"
proof -
  define f where "f = (\<lambda>x::real. x / 2 ^ 51)"
  have mono: "x - f x \<le> y - f y" if "x \<le> y" for x y
  proof -
    have "(y - x) / 2 ^ 51 \<le> (y - x) / 1" using that by (intro divide_left_mono) simp_all
    then show ?thesis by (simp add: f_def diff_divide_distrib)
  qed
  have mono': "f x \<le> f y" if "x \<le> y" for x y
    using that by (simp add: f_def divide_right_mono)
  have a: "a \<le> A + f A + c" "A - f A - c \<le> a" and b: "b \<le> B + f B + c" "B - f B - c \<le> b"
    using assms unfolding f_def by linarith+
  have "min a b \<le> min A B + f (min A B) + c \<and> min A B - f (min A B) - c \<le> min a b"
  proof (cases "A \<le> B")
    case True
    then have m: "min A B = A" by simp
    from mono[OF True] mono'[OF True] a b show ?thesis unfolding m by linarith
  next
    case False
    then have le: "B \<le> A" and m: "min A B = B" by simp_all
    from mono[OF le] mono'[OF le] a b show ?thesis unfolding m by linarith
  qed
  then show ?thesis unfolding f_def by linarith
qed

lemma pixel_keypoints_position:
  assumes "pixel_keypoints kp"
  shows "kp ''nose'' = Some p \<Longrightarrow> pixel_position p"
    and "kp ''leftWrist'' = Some p \<Longrightarrow> pixel_position p"
    and "kp ''rightWrist'' = Some p \<Longrightarrow> pixel_position p"
  using assms by (simp_all add: pixel_keypoints_def)

lemma Math_min_Fin: "Math_min (Fin a) (Fin b) = Fin (min a b)"
  by (simp add: min_def)

lemma of_rat_min: "real_of_rat (min a b) = min (real_of_rat a) (real_of_rat b)"
  by (simp add: min_def of_rat_less_eq)

text \<open>
  The minimum of the computed distances is within the tolerance of the minimum of the
  true distances of the wrists that are present.
\<close>

lemma minDist_error:
  assumes nose: "kp ''nose'' = Some nose"
    and wrist: "kp ''leftWrist'' \<noteq> None \<or> kp ''rightWrist'' \<noteq> None"
    and pix: "pixel_keypoints kp"
  shows "\<exists>m. minDist kp nose = Fin m \<and> 0 \<le> m \<and> m \<le> 2 ^ 65
           \<and> \<bar>real_of_rat m - Min (set (spec_wrist_distances kp nose))\<bar>
              \<le> Min (set (spec_wrist_distances kp nose)) / 2 ^ 51 + 1 / 2 ^ 534"
proof -
  have pn: "pixel_position nose" using pix nose by (rule pixel_keypoints_position)
  show ?thesis
  proof (cases "kp ''leftWrist''")
    case None
    with wrist obtain w where w: "kp ''rightWrist'' = Some w" by auto
    have "pixel_position w" using pix w by (rule pixel_keypoints_position)
    from euclideanDistance_error[OF this pn] show ?thesis
      using None w
      by (simp add: minDist_def distLeft_def distRight_def spec_wrist_distances_def
          List.map_filter_simps)
  next
    case (Some v)
    note left = this
    have pv: "pixel_position v" using pix left by (rule pixel_keypoints_position)
    show ?thesis
    proof (cases "kp ''rightWrist''")
      case None
      from euclideanDistance_error[OF pv pn] show ?thesis
        using None left
        by (simp add: minDist_def distLeft_def distRight_def spec_wrist_distances_def
            List.map_filter_simps)
    next
      case (Some w)
      have pw: "pixel_position w" using pix Some by (rule pixel_keypoints_position)
      from euclideanDistance_error[OF pv pn] obtain a
        where a: "euclideanDistance v nose = Fin a" "0 \<le> a" "a \<le> 2 ^ 65"
          "\<bar>real_of_rat a - spec_distance v nose\<bar> \<le> spec_distance v nose / 2 ^ 51 + 1 / 2 ^ 534"
        by blast
      from euclideanDistance_error[OF pw pn] obtain b
        where b: "euclideanDistance w nose = Fin b" "0 \<le> b" "b \<le> 2 ^ 65"
          "\<bar>real_of_rat b - spec_distance w nose\<bar> \<le> spec_distance w nose / 2 ^ 51 + 1 / 2 ^ 534"
        by blast
      have s: "Min (set (spec_wrist_distances kp nose))
          = min (spec_distance v nose) (spec_distance w nose)"
        using left Some by (simp add: spec_wrist_distances_def List.map_filter_simps)
      have m: "minDist kp nose = Fin (min a b)"
        using left Some by (simp add: minDist_def distLeft_def distRight_def a(1) b(1) Math_min_Fin)
      have "\<bar>real_of_rat (min a b) - min (spec_distance v nose) (spec_distance w nose)\<bar>
          \<le> min (spec_distance v nose) (spec_distance w nose) / 2 ^ 51 + 1 / 2 ^ 534"
        unfolding of_rat_min using a(4) b(4) by (rule min_within_tolerance)
      moreover have "0 \<le> min a b" "min a b \<le> 2 ^ 65" using a b by simp_all
      ultimately show ?thesis unfolding s m by blast
    qed
  qed
qed

text \<open>
  The report of a distance: \<^verbatim>\<open>toFixed(2)\<close> gives the digits of the nearest hundredth, the upper
  one at a tie, and \<^verbatim>\<open>parseFloat\<close> a double nearest to that hundredth.
\<close>

lemma two_decimals:
  assumes "0 \<le> m" and "m \<le> 2 ^ 65"
  shows "\<exists>n r. of_int n / 100 - 1 / 200 \<le> m \<and> m < of_int n / 100 + 1 / 200
           \<and> parseFloat (toFixed2 (Fin m)) = Fin r \<and> is_double r
           \<and> (\<forall>d. is_double d \<longrightarrow> \<bar>r - of_int n / 100\<bar> \<le> \<bar>d - of_int n / 100\<bar>)"
proof -
  define n where "n = \<lfloor>m * 100 + 1 / 2\<rfloor>"
  define c :: rat where "c = of_int n / 100"
  have n: "of_int n \<le> m * 100 + 1 / 2" "m * 100 + 1 / 2 < of_int n + 1"
    unfolding n_def by linarith+
  then have near: "c - 1 / 200 \<le> m" "m < c + 1 / 200" unfolding c_def by linarith+
  have "(2::rat) ^ 65 < 10 ^ 21" by simp
  with assms have "\<not> 10 ^ 21 \<le> \<bar>m\<bar>" by linarith
  then have t: "toFixed2 (Fin m) = FixedText False n" using assms(1) by (simp add: n_def)
  have "0 \<le> n" unfolding n_def using assms(1) by simp
  then have c0: "0 \<le> c" by (simp add: c_def)
  have cb: "\<bar>c\<bar> \<le> 2 ^ 66" using near(1) assms(2) c0 by simp
  have "(2::rat) ^ 66 \<le> 2 ^ 1000" by simp
  with cb have "\<bar>c\<bar> \<le> 2 ^ 1000" by (rule order_trans)
  then have p: "parseFloat (toFixed2 (Fin m)) = Fin (rounded c)"
    unfolding t by (simp add: to_double_finite c_def)
  have "\<bar>rounded c\<bar> \<le> 2 * 2 ^ 66" using cb by (rule rounded_bound) simp
  also have "\<dots> < 2 ^ 1024" by simp
  finally have "is_double (rounded c)" by (rule rounded_is_double)
  moreover have "\<forall>d. is_double d \<longrightarrow> \<bar>rounded c - c\<bar> \<le> \<bar>d - c\<bar>"
    using rounded_nearest_double by blast
  ultimately show ?thesis using near p unfolding c_def by blast
qed

subsection \<open>Acceptance on either side of the threshold\<close>

text \<open>
  The distance \<open>495 - 1 / 2 ^ 32\<close> is accepted and the distance 495 is not; by monotonicity
  so are the distances below the one and above the other.
\<close>

lemma confidenceDecimal_below_495:
  "confidenceDecimal (Fin (2126008811519 / 4294967296))
   = Fin (112589990684739 / 1125899906842624)"
proof -
  have a: "to_double (2126008811519 / 2362232012800) = Fin (1013309916157885 / 1125899906842624)"
    by (rule to_double_eval[where e = "- 1"]) (simp_all add: round_half_even_def Let_def)
  have b: "to_double (112589990684739 / 1125899906842624)
      = Fin (112589990684739 / 1125899906842624)"
    by (rule to_double_eval[where e = "- 4"]) (simp_all add: round_half_even_def Let_def)
  show ?thesis
    by (simp add: confidenceDecimal_def THRESHOLD_DISTANCE_def a b)
qed

lemma accepted_below:
  assumes "m \<le> 2126008811519 / 4294967296"
  shows "js_ge (confidenceDecimal (Fin m)) ACCEPTANCE_THRESHOLD"
proof -
  have "js_le (Fin m) (Fin (2126008811519 / 4294967296))" using assms by simp
  then have "js_le (confidenceDecimal (Fin (2126008811519 / 4294967296)))
      (confidenceDecimal (Fin m))"
    by (rule confidenceDecimal_antimono)
  moreover have "js_le ACCEPTANCE_THRESHOLD
      (confidenceDecimal (Fin (2126008811519 / 4294967296)))"
    by (simp add: confidenceDecimal_below_495 ACCEPTANCE_THRESHOLD_value)
  ultimately show ?thesis unfolding js_ge_def by (rule js_le_trans[rotated])
qed

lemma rejected_above:
  assumes "495 \<le> m"
  shows "\<not> js_ge (confidenceDecimal (Fin m)) ACCEPTANCE_THRESHOLD"
proof
  assume "js_ge (confidenceDecimal (Fin m)) ACCEPTANCE_THRESHOLD"
  then have "js_le ACCEPTANCE_THRESHOLD (confidenceDecimal (Fin m))" by (simp add: js_ge_def)
  moreover have "js_le (Fin 495) (Fin m)" using assms by simp
  then have "js_le (confidenceDecimal (Fin m)) (confidenceDecimal (Fin 495))"
    by (rule confidenceDecimal_antimono)
  ultimately have "js_le ACCEPTANCE_THRESHOLD (confidenceDecimal (Fin 495))"
    by (rule js_le_trans)
  then show False by (simp add: confidenceDecimal_495 ACCEPTANCE_THRESHOLD_value)
qed

lemma subnormal_term_small: "(1::real) / 2 ^ 534 \<le> 1 / 10 ^ 13"
  by (intro divide_left_mono) simp_all

text \<open>
  In terms of the exact confidence of a distance \<open>D\<close> that the computed \<open>m\<close> approximates.
\<close>

lemma accepted_band:
  fixes D :: real
  assumes m: "\<bar>real_of_rat m - D\<bar> \<le> D / 2 ^ 51 + 1 / 2 ^ 534"
  shows "1 / 10 + 1 / 10 ^ 12 \<le> spec_confidence D
           \<Longrightarrow> js_ge (confidenceDecimal (Fin m)) ACCEPTANCE_THRESHOLD"
    and "spec_confidence D \<le> 1 / 10 - 1 / 10 ^ 12
           \<Longrightarrow> \<not> js_ge (confidenceDecimal (Fin m)) ACCEPTANCE_THRESHOLD"
proof -
  assume "1 / 10 + 1 / 10 ^ 12 \<le> spec_confidence D"
  then have "1 / 10 + 1 / 10 ^ 12 \<le> 1 - D / 550" by (simp add: spec_confidence_def max_def split: if_splits)
  then have D: "D \<le> 495 - 550 / 10 ^ 12" by simp
  then have "D / 2 ^ 51 \<le> 495 / 2 ^ 51" by (intro divide_right_mono) simp_all
  with m D subnormal_term_small have "real_of_rat m \<le> 2126008811519 / 4294967296" by (simp add: abs_le_iff)
  also have "\<dots> = real_of_rat (2126008811519 / 4294967296)" by (simp add: of_rat_divide)
  finally have "m \<le> 2126008811519 / 4294967296" by (simp only: of_rat_less_eq)
  then show "js_ge (confidenceDecimal (Fin m)) ACCEPTANCE_THRESHOLD" by (rule accepted_below)
next
  assume a: "spec_confidence D \<le> 1 / 10 - 1 / 10 ^ 12"
  have "1 - D / 550 \<le> spec_confidence D" by (simp add: spec_confidence_def)
  then have "1 - D / 550 \<le> 1 / 10 - 1 / 10 ^ 12" using a by (rule order_trans)
  then have "495 + 550 / 10 ^ 12 \<le> D" by simp
  moreover define c :: real where "c = 495 + 550 / 10 ^ 12"
  ultimately have D: "c \<le> D" by simp
  then have "(D - c) / 2 ^ 51 \<le> (D - c) / 1" by (intro divide_left_mono) simp_all
  then have "c - c / 2 ^ 51 \<le> D - D / 2 ^ 51" by (simp add: diff_divide_distrib)
  moreover have "495 + 1 / 10 ^ 13 \<le> c - c / 2 ^ 51" by (simp add: c_def)
  ultimately have "495 + 1 / 10 ^ 13 \<le> D - D / 2 ^ 51" by (rule order_trans[rotated])
  with m subnormal_term_small have "real_of_rat 495 \<le> real_of_rat m" by (simp add: abs_le_iff)
  then have "495 \<le> m" by (simp only: of_rat_less_eq)
  then show "\<not> js_ge (confidenceDecimal (Fin m)) ACCEPTANCE_THRESHOLD" by (rule rejected_above)
qed


section \<open>The example inputs evaluated\<close>

lemma pt_sel [simp]: "pos_x (pt a b) = Fin a" "pos_y (pt a b) = Fin b"
  by (simp_all add: pt_def)

lemma finite_position_pt [simp]: "finite_position (pt a b)"
  by (simp add: finite_position_def)

lemma euclideanDistance_20: "euclideanDistance (pt 120 100) (pt 100 100) = Fin 20"
  by (simp add: euclideanDistance_def sqrt_double_400)

lemma euclideanDistance_10: "euclideanDistance (pt 100 110) (pt 100 100) = Fin 10"
  by (simp add: euclideanDistance_def sqrt_double_100)

lemma euclideanDistance_tie:
  "euclideanDistance (pt 10 0) (pt 0 0) = Fin 10" "euclideanDistance (pt 0 10) (pt 0 0) = Fin 10"
  by (simp_all add: euclideanDistance_def sqrt_double_100)

lemma euclideanDistance_495: "euclideanDistance (pt 495 0) (pt 0 0) = Fin 495"
  by (simp add: euclideanDistance_def sqrt_double_245025)

lemma minDist_kp_scenario: "minDist kp_scenario (pt 100 100) = Fin 20"
  by (simp add: kp_scenario_def minDist_def distLeft_def distRight_def euclideanDistance_20)

lemma dist_kp_both:
  "distLeft kp_both (pt 100 100) = Fin 20" "distRight kp_both (pt 100 100) = Fin 10"
  by (simp_all add: kp_both_def distLeft_def distRight_def euclideanDistance_20
      euclideanDistance_10)

lemma minDist_kp_near: "minDist kp_near (pt 100 100) = Fin 10"
  by (simp add: kp_near_def minDist_def distLeft_def distRight_def euclideanDistance_10)

lemma dist_kp_tie:
  "distLeft kp_tie (pt 0 0) = Fin 10" "distRight kp_tie (pt 0 0) = Fin 10"
  by (simp_all add: kp_tie_def distLeft_def distRight_def euclideanDistance_tie)

lemma minDist_kp_boundary: "minDist kp_boundary (pt 0 0) = Fin 495"
  by (simp add: kp_boundary_def minDist_def distLeft_def distRight_def euclideanDistance_495)

lemma accepts_20: "js_ge (confidenceDecimal (Fin 20)) ACCEPTANCE_THRESHOLD"
  by (simp add: confidenceDecimal_20 ACCEPTANCE_THRESHOLD_value js_ge_def)

text \<open>
  The scenario of the specification: nose at (100, 100), left wrist at (120, 100), no
  right wrist.
\<close>

lemma decide_kp_scenario:
  "decide kp_scenario
   = Inr \<lparr> closestHand = ''leftWrist'', distance = Fin 20, accepted = True \<rparr>"
proof -
  have "kp_scenario ''nose'' = Some (pt 100 100)" by (simp add: kp_scenario_def)
  moreover have "distLeft kp_scenario (pt 100 100) = Fin 20"
    by (simp add: kp_scenario_def distLeft_def euclideanDistance_20)
  ultimately show ?thesis
    using accepts_20 by (simp add: decide_def minDist_kp_scenario)
qed

text \<open>
  A distance of 12.3456 is reported as 12.35: the text of \<^verbatim>\<open>toFixed(2)\<close> is the digits 1235.
\<close>

lemma toFixed2_example: "toFixed2 (to_double (7716 / 625)) = FixedText False 1235"
proof -
  have "to_double (7716 / 625) = Fin (6949954944958149 / 562949953421312)"
    by (rule to_double_eval[where e = 3]) (simp_all add: round_half_even_def Let_def)
  then show ?thesis by simp
qed

text \<open>The text of \<^verbatim>\<open>toFixed(2)\<close> denotes a hundredth nearest to the number.\<close>

lemma toFixed2_nearest:
  assumes "0 \<le> q" and "q < 10 ^ 21"
  shows "\<exists>n. toFixed2 (Fin q) = FixedText False n \<and> \<bar>of_int n / 100 - q\<bar> \<le> 1 / 200"
proof -
  define n where "n = \<lfloor>q * 100 + 1 / 2\<rfloor>"
  have "of_int n \<le> q * 100 + 1 / 2" "q * 100 + 1 / 2 < of_int n + 1"
    unfolding n_def by linarith+
  then have "\<bar>of_int n / 100 - q\<bar> \<le> 1 / 200" by linarith
  moreover have "toFixed2 (Fin q) = FixedText False n"
    using assms by (simp add: n_def)
  ultimately show ?thesis by blast
qed

text \<open>
  The comparison on the reported distance would decide otherwise: the distance
  494.99609375 is accepted, and it is reported as 495, which is not.
\<close>

lemma rounded_distance_decides_otherwise:
  "js_ge (confidenceDecimal (Fin (126719 / 256))) ACCEPTANCE_THRESHOLD
   \<and> parseFloat (toFixed2 (Fin (126719 / 256))) = Fin 495
   \<and> \<not> js_ge (confidenceDecimal (parseFloat (toFixed2 (Fin (126719 / 256)))))
          ACCEPTANCE_THRESHOLD"
proof -
  have a: "to_double (126719 / 140800) = Fin (8106415357681277 / 9007199254740992)"
    by (rule to_double_eval[where e = "- 1"]) (simp_all add: round_half_even_def Let_def)
  have b: "to_double (900783897059715 / 9007199254740992)
      = Fin (900783897059715 / 9007199254740992)"
    by (rule to_double_eval[where e = "- 4"]) (simp_all add: round_half_even_def Let_def)
  have c: "confidenceDecimal (Fin (126719 / 256)) = Fin (900783897059715 / 9007199254740992)"
    by (simp add: confidenceDecimal_def THRESHOLD_DISTANCE_def a b)
  have r: "parseFloat (toFixed2 (Fin (126719 / 256))) = Fin 495" by simp
  show ?thesis
    unfolding r by (simp add: c confidenceDecimal_495 ACCEPTANCE_THRESHOLD_value js_ge_def)
qed

text \<open>The diagonal: the double nearest to \<open>sqrt 2\<close>, reported as 1.41.\<close>

lemma sqrt_double_2: "sqrt_double 2 = Fin (6369051672525773 / 4503599627370496)"
proof -
  have i: "ilog2 2 = 1" by (rule ilog2_unique) simp_all
  have s: "isqrt 40564819207303340847894502572032 = 6369051672525772"
    by (rule isqrt_unique) simp_all
  show ?thesis unfolding sqrt_double_def i Let_def by (simp add: s power_int_minus)
qed

lemma sqrt_double_25: "sqrt_double 25 = Fin 5"
  using sqrt_double_square[where m = "5 * 2 ^ 50" and e = 2 and r = 5] by simp

lemma to_double_141: "to_double (141 / 100) = Fin (6350075474592399 / 4503599627370496)"
  by (rule to_double_eval[where e = 0]) (simp_all add: round_half_even_def Let_def)

lemma dist_kp_diagonal:
  "distLeft kp_diagonal (pt 0 0) = Fin 5"
  "distRight kp_diagonal (pt 0 0) = Fin (6369051672525773 / 4503599627370496)"
  by (simp_all add: kp_diagonal_def distLeft_def distRight_def euclideanDistance_def
      sqrt_double_25 sqrt_double_2 to_double_1)

lemma minDist_kp_diagonal:
  "minDist kp_diagonal (pt 0 0) = Fin (6369051672525773 / 4503599627370496)"
  by (simp add: minDist_def dist_kp_diagonal)

lemma sqrt_25: "sqrt 25 = (5::real)"
  by (rule real_sqrt_unique) simp_all

lemma spec_kp_diagonal: "spec_wrist_distances kp_diagonal (pt 0 0) = [5, sqrt 2]"
  by (simp add: spec_wrist_distances_def List.map_filter_simps kp_diagonal_def
      spec_distance_def sqrt_25)

lemma sqrt_2_le_5: "sqrt 2 \<le> (5::real)"
  by (rule real_le_lsqrt) simp_all

text \<open>The wrist at 494.99609375: every operation of the distance is exact.\<close>

lemma euclideanDistance_rounding:
  "euclideanDistance (pt (126719 / 256) 0) (pt 0 0) = Fin (126719 / 256)"
proof -
  have a: "to_double (126719 / 256) = Fin (126719 / 256)"
    by (rule to_double_eval[where e = 8]) (simp_all add: round_half_even_def Let_def)
  have b: "to_double (16057704961 / 65536) = Fin (16057704961 / 65536)"
    by (rule to_double_eval[where e = 17]) (simp_all add: round_half_even_def Let_def)
  have c: "sqrt_double (16057704961 / 65536) = Fin (126719 / 256)"
    using sqrt_double_square[where m = "126719 * 2 ^ 36" and e = 8 and r = "126719 / 256"]
    by simp
  show ?thesis by (simp add: euclideanDistance_def a b c)
qed

lemma minDist_kp_rounding: "minDist kp_rounding (pt 0 0) = Fin (126719 / 256)"
  by (simp add: kp_rounding_def minDist_def distLeft_def distRight_def
      euclideanDistance_rounding)

lemma spec_kp_rounding: "spec_wrist_distances kp_rounding (pt 0 0) = [126719 / 256]"
proof -
  have "spec_distance (pt (126719 / 256) 0) (pt 0 0) = 126719 / 256"
    unfolding spec_distance_def
    by (rule real_sqrt_unique) (simp_all add: of_rat_divide power2_eq_square)
  then show ?thesis
    by (simp add: spec_wrist_distances_def List.map_filter_simps kp_rounding_def)
qed





section \<open>The claims\<close>

text \<open>
  C1. For a set of keypoints with a nose and at least one wrist, in pixel coordinates,
  \<open>decide\<close> returns a judgment. The minimum distance it computes is a finite number \<open>m\<close>
  within floating-point tolerance of the true minimum, the least of the exact Euclidean
  distances \<open>sqrt ((wrist.x - nose.x)\<^sup>2 + (wrist.y - nose.y)\<^sup>2)\<close> of the wrists that are
  present: the error is at most the true minimum divided by \<open>2 ^ 51\<close>, plus \<open>1 / 2 ^ 534\<close>
  for results in the subnormal range. An absent wrist does not enter the minimum, which
  is what its distance of infinity amounts to. The reported distance is \<open>m\<close> rounded to
  two decimals: there is an integer \<open>n\<close> with \<open>n / 100\<close> a hundredth nearest to \<open>m\<close> (the
  upper one at a tie), and the distance is a double nearest to \<open>n / 100\<close>.
\<close>

theorem distance_is_true_minimum:
  assumes nose: "kp ''nose'' = Some nose"
    and wrist: "kp ''leftWrist'' \<noteq> None \<or> kp ''rightWrist'' \<noteq> None"
    and pix: "pixel_keypoints kp"
  shows "\<exists>j m n r. decide kp = Inr j
      \<and> minDist kp nose = Fin m
      \<and> \<bar>real_of_rat m - Min (set (spec_wrist_distances kp nose))\<bar>
           \<le> Min (set (spec_wrist_distances kp nose)) / 2 ^ 51 + 1 / 2 ^ 534
      \<and> of_int n / 100 - 1 / 200 \<le> m \<and> m < of_int n / 100 + 1 / 200
      \<and> distance j = Fin r \<and> is_double r
      \<and> (\<forall>d. is_double d \<longrightarrow> \<bar>r - of_int n / 100\<bar> \<le> \<bar>d - of_int n / 100\<bar>)"
proof -
  from minDist_error[OF nose wrist pix] obtain m
    where m: "minDist kp nose = Fin m" "0 \<le> m" "m \<le> 2 ^ 65"
      "\<bar>real_of_rat m - Min (set (spec_wrist_distances kp nose))\<bar>
         \<le> Min (set (spec_wrist_distances kp nose)) / 2 ^ 51 + 1 / 2 ^ 534"
    by blast
  from two_decimals[OF m(2,3)] obtain n r
    where n: "of_int n / 100 - 1 / 200 \<le> m" "m < of_int n / 100 + 1 / 200"
      and r: "parseFloat (toFixed2 (Fin m)) = Fin r" "is_double r"
        "\<forall>d. is_double d \<longrightarrow> \<bar>r - of_int n / 100\<bar> \<le> \<bar>d - of_int n / 100\<bar>"
    by blast
  define j where "j = \<lparr> closestHand =
                  (if js_strict_eq (minDist kp nose) (distLeft kp nose)
                   then ''leftWrist'' else ''rightWrist''),
                distance = parseFloat (toFixed2 (minDist kp nose)),
                accepted = js_ge (confidenceDecimal (minDist kp nose)) ACCEPTANCE_THRESHOLD \<rparr>"
  have "decide kp = Inr j" by (simp add: decide_def nose j_def)
  moreover have "distance j = Fin r" unfolding j_def m(1) using r(1) by simp
  ultimately show ?thesis using m(1,4) n r(2,3) by blast
qed

text \<open>
  With the left wrist at (3, 4) and the right wrist at (1, 1) the true distances are 5
  and \<open>sqrt 2\<close>; the computed minimum is the double 1.4142135623730951, within the
  tolerance of \<open>sqrt 2\<close>, and the reported distance is the double 1.41.
\<close>

theorem distance_is_true_minimum_witness:
  "kp_diagonal ''nose'' = Some (pt 0 0) \<and> kp_diagonal ''rightWrist'' \<noteq> None
   \<and> pixel_keypoints kp_diagonal
   \<and> spec_wrist_distances kp_diagonal (pt 0 0) = [5, sqrt 2]
   \<and> minDist kp_diagonal (pt 0 0) = Fin (6369051672525773 / 4503599627370496)
   \<and> \<bar>6369051672525773 / 4503599627370496 - sqrt 2\<bar> \<le> sqrt 2 / 2 ^ 51 + 1 / 2 ^ 534
   \<and> (\<exists>j. decide kp_diagonal = Inr j
          \<and> distance j = Fin (6350075474592399 / 4503599627370496))
   \<and> is_double (6350075474592399 / 4503599627370496)"
proof -
  have n: "kp_diagonal ''nose'' = Some (pt 0 0)" by (simp add: kp_diagonal_def)
  have r: "kp_diagonal ''rightWrist'' \<noteq> None" by (simp add: kp_diagonal_def)
  then have w: "kp_diagonal ''leftWrist'' \<noteq> None \<or> kp_diagonal ''rightWrist'' \<noteq> None" by simp
  have p: "pixel_keypoints kp_diagonal"
    by (simp add: pixel_keypoints_def kp_diagonal_def pixel_position_def)
  have mn: "Min (set (spec_wrist_distances kp_diagonal (pt 0 0))) = sqrt 2"
    using sqrt_2_le_5 by (simp add: spec_kp_diagonal)
  have d: "parseFloat (toFixed2 (Fin (6369051672525773 / 4503599627370496)))
      = Fin (6350075474592399 / 4503599627370496)"
    by (simp add: to_double_141)
  from distance_is_true_minimum[of kp_diagonal "pt 0 0", OF n w p] obtain j m k v
    where j: "decide kp_diagonal = Inr j"
      and m: "minDist kp_diagonal (pt 0 0) = Fin m"
        "\<bar>real_of_rat m - sqrt 2\<bar> \<le> sqrt 2 / 2 ^ 51 + 1 / 2 ^ 534"
      and v: "distance j = Fin v" "is_double v"
    unfolding mn by blast
  from m(1) have m': "m = 6369051672525773 / 4503599627370496"
    by (simp add: minDist_kp_diagonal)
  have "distance j = parseFloat (toFixed2 (minDist kp_diagonal (pt 0 0)))"
    using j by (auto simp: decide_def n)
  then have dj: "distance j = Fin (6350075474592399 / 4503599627370496)"
    by (simp only: minDist_kp_diagonal d)
  from v(1)[symmetric] dj have "Fin v = Fin (6350075474592399 / 4503599627370496)"
    by (rule trans)
  then have veq: "v = 6350075474592399 / 4503599627370496" by (simp only: number.inject)
  from v(2) have "is_double (6350075474592399 / 4503599627370496)" unfolding veq .
  moreover have "\<bar>6369051672525773 / 4503599627370496 - sqrt 2\<bar>
      \<le> sqrt 2 / 2 ^ 51 + 1 / 2 ^ 534"
    using m(2) unfolding m' by (simp add: of_rat_divide)
  ultimately show ?thesis using n r p spec_kp_diagonal minDist_kp_diagonal j dj by blast
qed

text \<open>
  C2. For a set of keypoints with a nose, in pixel coordinates, \<open>decide\<close> returns a
  judgment. Without a wrist it is not accepted. With a wrist, \<open>accepted\<close> is the comparison
  \<^verbatim>\<open>Math.max(0, 1 - m / 550) >= 0.1\<close>, evaluated in double arithmetic, on the computed
  minimum distance \<open>m\<close>, which is within floating-point tolerance of the true minimum
  distance: the unrounded minimum, not its two-decimal report, which may differ from the
  true minimum by a two-hundredth.
  In terms of the exact confidence \<open>max (0, 1 - d / 550)\<close> of the true minimum distance
  \<open>d\<close>: the judgment is accepted when it is at least \<open>0.1 + 1 / 10 ^ 12\<close> and not accepted
  when it is at most \<open>0.1 - 1 / 10 ^ 12\<close>. What happens at the exact confidence 0.1 is the
  matter of C6.
\<close>

theorem accepted_from_true_distance:
  assumes nose: "kp ''nose'' = Some nose" and pix: "pixel_keypoints kp"
  shows "\<exists>j. decide kp = Inr j
      \<and> (kp ''leftWrist'' = None \<and> kp ''rightWrist'' = None \<longrightarrow> \<not> accepted j)
      \<and> (kp ''leftWrist'' \<noteq> None \<or> kp ''rightWrist'' \<noteq> None \<longrightarrow>
           (\<exists>m. minDist kp nose = Fin m
                \<and> \<bar>real_of_rat m - Min (set (spec_wrist_distances kp nose))\<bar>
                   \<le> Min (set (spec_wrist_distances kp nose)) / 2 ^ 51 + 1 / 2 ^ 534
                \<and> accepted j =
                    js_ge (Math_max (Fin 0) (js_sub (Fin 1) (js_div (Fin m) (Fin 550))))
                          (to_double (1 / 10)))
         \<and> (1 / 10 + 1 / 10 ^ 12 \<le> spec_confidence (Min (set (spec_wrist_distances kp nose)))
              \<longrightarrow> accepted j)
         \<and> (spec_confidence (Min (set (spec_wrist_distances kp nose))) \<le> 1 / 10 - 1 / 10 ^ 12
              \<longrightarrow> \<not> accepted j))"
proof -
  define j where "j = \<lparr> closestHand =
                  (if js_strict_eq (minDist kp nose) (distLeft kp nose)
                   then ''leftWrist'' else ''rightWrist''),
                distance = parseFloat (toFixed2 (minDist kp nose)),
                accepted = js_ge (confidenceDecimal (minDist kp nose)) ACCEPTANCE_THRESHOLD \<rparr>"
  have dec: "decide kp = Inr j" by (simp add: decide_def nose j_def)
  have acc: "accepted j = js_ge (confidenceDecimal (minDist kp nose)) ACCEPTANCE_THRESHOLD"
    by (simp add: j_def)
  have none: "\<not> accepted j" if "kp ''leftWrist'' = None \<and> kp ''rightWrist'' = None"
  proof -
    from that have "minDist kp nose = Infinity"
      by (simp add: minDist_def distLeft_def distRight_def)
    then show ?thesis
      by (simp add: acc confidenceDecimal_Infinity ACCEPTANCE_THRESHOLD_value js_ge_def)
  qed
  have some: "(\<exists>m. minDist kp nose = Fin m
                \<and> \<bar>real_of_rat m - Min (set (spec_wrist_distances kp nose))\<bar>
                   \<le> Min (set (spec_wrist_distances kp nose)) / 2 ^ 51 + 1 / 2 ^ 534
                \<and> accepted j =
                    js_ge (Math_max (Fin 0) (js_sub (Fin 1) (js_div (Fin m) (Fin 550))))
                          (to_double (1 / 10)))
         \<and> (1 / 10 + 1 / 10 ^ 12 \<le> spec_confidence (Min (set (spec_wrist_distances kp nose)))
              \<longrightarrow> accepted j)
         \<and> (spec_confidence (Min (set (spec_wrist_distances kp nose))) \<le> 1 / 10 - 1 / 10 ^ 12
              \<longrightarrow> \<not> accepted j)"
    if wrist: "kp ''leftWrist'' \<noteq> None \<or> kp ''rightWrist'' \<noteq> None"
  proof -
    from minDist_error[OF nose wrist pix] obtain m
      where m: "minDist kp nose = Fin m"
        "\<bar>real_of_rat m - Min (set (spec_wrist_distances kp nose))\<bar>
           \<le> Min (set (spec_wrist_distances kp nose)) / 2 ^ 51 + 1 / 2 ^ 534"
      by blast
    have a: "accepted j = js_ge (confidenceDecimal (Fin m)) ACCEPTANCE_THRESHOLD"
      unfolding acc m(1) ..
    then have "accepted j =
        js_ge (Math_max (Fin 0) (js_sub (Fin 1) (js_div (Fin m) (Fin 550)))) (to_double (1 / 10))"
      by (simp only: confidenceDecimal_def THRESHOLD_DISTANCE_def ACCEPTANCE_THRESHOLD_def)
    with m accepted_band[OF m(2)] a show ?thesis by blast
  qed
  from dec none some show ?thesis by blast
qed

text \<open>
  A wrist at the true distance 494.99609375, of exact confidence 0.1000071: the judgment
  is accepted, while the distance it reports is 495, on which the same comparison fails.
\<close>

theorem accepted_from_true_distance_witness:
  "kp_rounding ''nose'' = Some (pt 0 0) \<and> pixel_keypoints kp_rounding
   \<and> kp_rounding ''leftWrist'' \<noteq> None
   \<and> spec_wrist_distances kp_rounding (pt 0 0) = [126719 / 256]
   \<and> 1 / 10 + 1 / 10 ^ 12 \<le> spec_confidence (126719 / 256)
   \<and> (\<exists>j. decide kp_rounding = Inr j \<and> accepted j \<and> distance j = Fin 495
          \<and> \<not> js_ge (confidenceDecimal (distance j)) ACCEPTANCE_THRESHOLD)"
proof -
  have n: "kp_rounding ''nose'' = Some (pt 0 0)" by (simp add: kp_rounding_def)
  have l: "kp_rounding ''leftWrist'' \<noteq> None" by (simp add: kp_rounding_def)
  have p: "pixel_keypoints kp_rounding"
    by (simp add: pixel_keypoints_def kp_rounding_def pixel_position_def)
  have mn: "Min (set (spec_wrist_distances kp_rounding (pt 0 0))) = 126719 / 256"
    by (simp add: spec_kp_rounding)
  have c: "1 / 10 + 1 / 10 ^ 12 \<le> spec_confidence (126719 / 256)"
    by (simp add: spec_confidence_def)
  from accepted_from_true_distance[of kp_rounding "pt 0 0", OF n p] l obtain j
    where j: "decide kp_rounding = Inr j"
      and "1 / 10 + 1 / 10 ^ 12 \<le> spec_confidence (126719 / 256) \<longrightarrow> accepted j"
    unfolding mn by blast
  with c have a: "accepted j" by simp
  have "distance j = parseFloat (toFixed2 (minDist kp_rounding (pt 0 0)))"
    using j by (auto simp: decide_def n)
  then have d: "distance j = Fin 495" by (simp add: minDist_kp_rounding)
  have "\<not> js_ge (confidenceDecimal (Fin 495)) ACCEPTANCE_THRESHOLD"
    by (rule rejected_above) simp
  with n p l spec_kp_rounding c j a d show ?thesis by auto
qed

text \<open>
  C3. For a set of keypoints with a nose, all positions finite: when both wrists are
  present and their distances to the nose are equal, \<open>closestHand\<close> is \<^verbatim>\<open>leftWrist\<close>; and
  \<open>closestHand\<close> is \<^verbatim>\<open>rightWrist\<close> only when the right distance is strictly smaller than
  the left one, the distance of an absent wrist being the infinity.
\<close>

theorem tie_prefers_left:
  assumes nose: "kp ''nose'' = Some nose"
    and fin: "finite_keypoints kp"
  shows "\<exists>j. decide kp = Inr j
      \<and> (kp ''leftWrist'' \<noteq> None \<and> kp ''rightWrist'' \<noteq> None
           \<and> js_strict_eq (distLeft kp nose) (distRight kp nose)
          \<longrightarrow> closestHand j = ''leftWrist'')
      \<and> (closestHand j = ''rightWrist'' \<longrightarrow> js_lt (distRight kp nose) (distLeft kp nose))"
proof -
  let ?l = "distLeft kp nose" and ?r = "distRight kp nose"
  have l: "?l \<noteq> NaN" using distLeft_nonneg[OF nose fin] js_le_not_NaN by blast
  have r: "?r \<noteq> NaN" using distRight_nonneg[OF nose fin] js_le_not_NaN by blast
  show ?thesis
    using l r not_js_le[OF l r]
    by (auto simp: decide_def nose minDist_def Math_min_if js_strict_eq_iff)
qed

text \<open>
  The tie of the specification, both wrists 10 pixels away, goes to the left wrist; with
  the right wrist at 10 and the left at 20 pixels the right wrist is chosen.
\<close>

theorem tie_prefers_left_witness:
  "(kp_tie ''leftWrist'' \<noteq> None \<and> kp_tie ''rightWrist'' \<noteq> None
      \<and> js_strict_eq (distLeft kp_tie (pt 0 0)) (distRight kp_tie (pt 0 0))
      \<and> (\<exists>j. decide kp_tie = Inr j \<and> closestHand j = ''leftWrist''))
   \<and> (\<exists>j. decide kp_both = Inr j \<and> closestHand j = ''rightWrist''
          \<and> js_lt (distRight kp_both (pt 100 100)) (distLeft kp_both (pt 100 100)))"
proof -
  have n: "kp_tie ''nose'' = Some (pt 0 0)" by (simp add: kp_tie_def)
  have f: "finite_keypoints kp_tie" by (simp add: finite_keypoints_def kp_tie_def)
  have h: "kp_tie ''leftWrist'' \<noteq> None \<and> kp_tie ''rightWrist'' \<noteq> None
      \<and> js_strict_eq (distLeft kp_tie (pt 0 0)) (distRight kp_tie (pt 0 0))"
    by (simp add: dist_kp_tie) (simp add: kp_tie_def)
  from tie_prefers_left[of kp_tie "pt 0 0", OF n f] h
  have one: "\<exists>j. decide kp_tie = Inr j \<and> closestHand j = ''leftWrist''" by blast
  have n': "kp_both ''nose'' = Some (pt 100 100)" by (simp add: kp_both_def)
  have f': "finite_keypoints kp_both" by (simp add: finite_keypoints_def kp_both_def)
  have "decide kp_both = Inr \<lparr> closestHand = ''rightWrist'', distance = Fin 10,
      accepted = js_ge (confidenceDecimal (Fin 10)) ACCEPTANCE_THRESHOLD \<rparr>"
    by (simp add: decide_def n' minDist_def dist_kp_both)
  with tie_prefers_left[of kp_both "pt 100 100", OF n' f']
  have two: "\<exists>j. decide kp_both = Inr j \<and> closestHand j = ''rightWrist''
      \<and> js_lt (distRight kp_both (pt 100 100)) (distLeft kp_both (pt 100 100))"
    by auto
  from h one two show ?thesis by blast
qed

text \<open>
  C4. \<open>decide\<close> fails, with \<open>MissingAnchorError\<close>, exactly when the keypoints have no
  nose, and returns a judgment exactly when they have one. When the model's keypoints
  have no nose the handler answers with status 400 and the error \<^verbatim>\<open>Nose not detected\<close>.
\<close>

theorem missing_nose:
  "(decide kp = Inl MissingAnchorError \<longleftrightarrow> kp ''nose'' = None)
   \<and> ((\<exists>j. decide kp = Inr j) \<longleftrightarrow> kp ''nose'' \<noteq> None)
   \<and> (req_file req = Some buf \<and> modelPromise env = Some net \<and> loadImage env buf = Some canvas
        \<and> net canvas = Some points \<and> collect_keypoints points Map.empty ''nose'' = None
       \<longrightarrow> fst (pose_handler env req)
            = \<lparr> status = 400, body = ErrorBody ''Nose not detected'' \<rparr>)"
  by (auto simp: decide_def pose_handler_def split: option.splits)

text \<open>A set with the left wrist only, and a request whose pose has no nose.\<close>

theorem missing_nose_witness:
  "decide kp_only_wrist = Inl MissingAnchorError
   \<and> collect_keypoints pose_no_nose Map.empty ''nose'' = None
   \<and> fst (pose_handler env_no_nose \<lparr> req_file = Some [137, 80, 78, 71] \<rparr>)
       = \<lparr> status = 400, body = ErrorBody ''Nose not detected'' \<rparr>"
proof -
  have c: "collect_keypoints pose_no_nose Map.empty ''nose'' = None"
    by (simp add: pose_no_nose_def)
  have k: "kp_only_wrist ''nose'' = None" by (simp add: kp_only_wrist_def)
  from missing_nose[of kp_only_wrist "\<lparr> req_file = Some [137, 80, 78, 71] \<rparr>"
      "[137, 80, 78, 71]" env_no_nose "\<lambda>canvas. Some pose_no_nose" "[137, 80, 78, 71]"
      pose_no_nose] c k
  show ?thesis by (simp add: env_no_nose_def)
qed

text \<open>
  C5. For a set of keypoints with a nose and neither wrist, \<open>decide\<close> returns a judgment:
  the minimum distance and the reported distance are the infinity, the confidence is 0,
  \<open>accepted\<close> is false and \<open>closestHand\<close> is \<^verbatim>\<open>leftWrist\<close>.
\<close>

theorem only_nose:
  assumes "kp ''nose'' = Some nose" and "kp ''leftWrist'' = None" and "kp ''rightWrist'' = None"
  shows "decide kp = Inr \<lparr> closestHand = ''leftWrist'', distance = Infinity, accepted = False \<rparr>
         \<and> minDist kp nose = Infinity \<and> confidenceDecimal (minDist kp nose) = Fin 0"
  using assms
  by (simp add: decide_def minDist_def distLeft_def distRight_def confidenceDecimal_Infinity
      ACCEPTANCE_THRESHOLD_value js_ge_def)

theorem only_nose_witness:
  "kp_only_nose ''nose'' = Some (pt 0 0) \<and> kp_only_nose ''leftWrist'' = None
   \<and> kp_only_nose ''rightWrist'' = None
   \<and> decide kp_only_nose
       = Inr \<lparr> closestHand = ''leftWrist'', distance = Infinity, accepted = False \<rparr>"
proof -
  have h: "kp_only_nose ''nose'' = Some (pt 0 0)" "kp_only_nose ''leftWrist'' = None"
    "kp_only_nose ''rightWrist'' = None" by (simp_all add: kp_only_nose_def)
  from only_nose[of kp_only_nose "pt 0 0", OF h] h show ?thesis by simp
qed

text \<open>
  C6, as amended. With the threshold distance 550, a single detected wrist at Euclidean
  distance exactly 495 from the nose yields, in double arithmetic, the confidence
  \<open>1 - 495 / 550 = 900719925474099 / 2 ^ 53\<close> (0.09999999999999998, since \<open>495 / 550\<close>
  rounds up to the double above nine tenths), which is below the double \<open>0.1\<close>, and
  \<open>decide\<close> returns \<open>accepted = false\<close>. The comparison itself is inclusive: the threshold
  compared with itself is accepted.
\<close>

theorem boundary_495:
  assumes nose: "kp ''nose'' = Some nose"
    and single: "kp ''leftWrist'' = Some w \<and> kp ''rightWrist'' = None
                 \<or> kp ''leftWrist'' = None \<and> kp ''rightWrist'' = Some w"
    and dist: "euclideanDistance w nose = Fin 495"
  shows "\<exists>j. decide kp = Inr j
      \<and> confidenceDecimal (minDist kp nose) = Fin (900719925474099 / 2 ^ 53)
      \<and> js_lt (confidenceDecimal (minDist kp nose)) ACCEPTANCE_THRESHOLD
      \<and> accepted j = False
      \<and> js_ge ACCEPTANCE_THRESHOLD ACCEPTANCE_THRESHOLD"
proof -
  have "minDist kp nose = Fin 495"
    using single dist by (auto simp: minDist_def distLeft_def distRight_def)
  then show ?thesis
    by (simp add: decide_def nose confidenceDecimal_495 ACCEPTANCE_THRESHOLD_value js_ge_def)
qed

theorem boundary_495_witness:
  "kp_boundary ''nose'' = Some (pt 0 0) \<and> kp_boundary ''leftWrist'' = Some (pt 495 0)
   \<and> kp_boundary ''rightWrist'' = None \<and> euclideanDistance (pt 495 0) (pt 0 0) = Fin 495
   \<and> (\<exists>j. decide kp_boundary = Inr j \<and> accepted j = False)"
proof -
  have n: "kp_boundary ''nose'' = Some (pt 0 0)" by (simp add: kp_boundary_def)
  have l: "kp_boundary ''leftWrist'' = Some (pt 495 0)" "kp_boundary ''rightWrist'' = None"
    by (simp_all add: kp_boundary_def)
  then have s: "kp_boundary ''leftWrist'' = Some (pt 495 0) \<and> kp_boundary ''rightWrist'' = None
      \<or> kp_boundary ''leftWrist'' = None \<and> kp_boundary ''rightWrist'' = Some (pt 495 0)"
    by simp
  from boundary_495[of kp_boundary "pt 0 0" "pt 495 0", OF n s euclideanDistance_495] n l euclideanDistance_495
  show ?thesis by blast
qed

text \<open>
  The claim as stated fails for the nose at (0, 0) and the left wrist at (495, 0): the
  distance is exactly 495, the confidence is neither one tenth nor the double \<open>0.1\<close>, and
  the judgment is not accepted.
\<close>

theorem boundary_495_rejected:
  "minDist [''nose'' \<mapsto> \<lparr> pos_x = Fin 0, pos_y = Fin 0 \<rparr>,
            ''leftWrist'' \<mapsto> \<lparr> pos_x = Fin 495, pos_y = Fin 0 \<rparr>]
     \<lparr> pos_x = Fin 0, pos_y = Fin 0 \<rparr> = Fin 495
   \<and> confidenceDecimal (Fin 495) \<noteq> Fin (1 / 10)
   \<and> confidenceDecimal (Fin 495) \<noteq> ACCEPTANCE_THRESHOLD
   \<and> decide [''nose'' \<mapsto> \<lparr> pos_x = Fin 0, pos_y = Fin 0 \<rparr>,
              ''leftWrist'' \<mapsto> \<lparr> pos_x = Fin 495, pos_y = Fin 0 \<rparr>]
       = Inr \<lparr> closestHand = ''leftWrist'', distance = Fin 495, accepted = False \<rparr>"
proof -
  have n: "kp_boundary ''nose'' = Some (pt 0 0)" by (simp add: kp_boundary_def)
  have l: "distLeft kp_boundary (pt 0 0) = Fin 495"
    by (simp add: kp_boundary_def distLeft_def euclideanDistance_495)
  have "minDist kp_boundary (pt 0 0) = Fin 495
      \<and> confidenceDecimal (Fin 495) \<noteq> Fin (1 / 10)
      \<and> confidenceDecimal (Fin 495) \<noteq> ACCEPTANCE_THRESHOLD
      \<and> decide kp_boundary
          = Inr \<lparr> closestHand = ''leftWrist'', distance = Fin 495, accepted = False \<rparr>"
    by (simp add: decide_def n l minDist_kp_boundary confidenceDecimal_495
        ACCEPTANCE_THRESHOLD_value js_ge_def)
  then show ?thesis unfolding kp_boundary_def pt_def .
qed

text \<open>
  C7. For a request with no uploaded file the handler answers with status 400 and the
  error \<^verbatim>\<open>No image uploaded\<close>, whatever its collaborators are, and calls none of them.
\<close>

theorem missing_file:
  assumes "req_file req = None"
  shows "pose_handler env req = (\<lparr> status = 400, body = ErrorBody ''No image uploaded'' \<rparr>, [])"
  using assms by (simp add: pose_handler_def)

theorem missing_file_witness:
  "pose_handler env_no_nose \<lparr> req_file = None \<rparr>
   = (\<lparr> status = 400, body = ErrorBody ''No image uploaded'' \<rparr>, [])"
  using missing_file[of "\<lparr> req_file = None \<rparr>" env_no_nose] by simp



text \<open>
  C9. Two poses that list the same parts with the same positions, whatever the scores,
  give the same result.
\<close>

theorem score_noninterference:
  assumes "map (\<lambda>p. (part p, position p)) ps = map (\<lambda>p. (part p, position p)) ps'"
  shows "decide (collect_keypoints ps Map.empty) = decide (collect_keypoints ps' Map.empty)"
  using collect_keypoints_ignores_score[OF assms] by simp

theorem score_noninterference_witness:
  "map score pose_a \<noteq> map score pose_b
   \<and> decide (collect_keypoints pose_a Map.empty) = decide (collect_keypoints pose_b Map.empty)"
proof -
  have "map (\<lambda>p. (part p, position p)) pose_a = map (\<lambda>p. (part p, position p)) pose_b"
    by (simp add: pose_a_def pose_b_def)
  from score_noninterference[OF this] show ?thesis by (simp add: pose_a_def pose_b_def)
qed

text \<open>
  C10. The confidence \<^verbatim>\<open>Math.max(0, 1 - minDist / 550)\<close> does not increase when the distance
  grows; for a distance that is not negative it lies between 0 and 1; and of two sets of
  keypoints with a nose, if the first has a minimum distance at most that of the second
  and the second is accepted, the first is accepted.
\<close>

theorem confidence_monotone:
  "(js_le d1 d2 \<longrightarrow> js_le (confidenceDecimal d2) (confidenceDecimal d1))
   \<and> (js_le (Fin 0) d \<longrightarrow>
        js_le (Fin 0) (confidenceDecimal d) \<and> js_le (confidenceDecimal d) (Fin 1))
   \<and> (kp1 ''nose'' = Some n1 \<and> kp2 ''nose'' = Some n2
        \<and> js_le (minDist kp1 n1) (minDist kp2 n2)
        \<and> decide kp1 = Inr j1 \<and> decide kp2 = Inr j2 \<and> accepted j2
       \<longrightarrow> accepted j1)"
proof (intro conjI impI)
  assume "js_le d1 d2"
  then show "js_le (confidenceDecimal d2) (confidenceDecimal d1)"
    by (rule confidenceDecimal_antimono)
next
  assume "js_le (Fin 0) d"
  then show "js_le (Fin 0) (confidenceDecimal d)" "js_le (confidenceDecimal d) (Fin 1)"
    by (rule confidenceDecimal_range)+
next
  assume a: "kp1 ''nose'' = Some n1 \<and> kp2 ''nose'' = Some n2
        \<and> js_le (minDist kp1 n1) (minDist kp2 n2)
        \<and> decide kp1 = Inr j1 \<and> decide kp2 = Inr j2 \<and> accepted j2"
  then have "js_le ACCEPTANCE_THRESHOLD (confidenceDecimal (minDist kp2 n2))"
    by (auto simp: decide_def js_ge_def)
  moreover have "js_le (confidenceDecimal (minDist kp2 n2)) (confidenceDecimal (minDist kp1 n1))"
    using a by (intro confidenceDecimal_antimono) simp
  ultimately have "js_le ACCEPTANCE_THRESHOLD (confidenceDecimal (minDist kp1 n1))"
    by (rule js_le_trans)
  then show "accepted j1" using a by (auto simp: decide_def js_ge_def)
qed

text \<open>
  The distances 10 and 20: the wrist at 20 pixels is accepted, hence so is the one at 10.
\<close>

theorem confidence_monotone_witness:
  "js_le (Fin 10) (Fin 20) \<and> js_le (confidenceDecimal (Fin 20)) (confidenceDecimal (Fin 10))
   \<and> js_le (Fin 0) (confidenceDecimal (Fin 20)) \<and> js_le (confidenceDecimal (Fin 20)) (Fin 1)
   \<and> js_le (minDist kp_near (pt 100 100)) (minDist kp_scenario (pt 100 100))
   \<and> (\<exists>j1 j2. decide kp_near = Inr j1 \<and> decide kp_scenario = Inr j2
          \<and> accepted j2 \<and> accepted j1)"
proof -
  have n1: "kp_near ''nose'' = Some (pt 100 100)" by (simp add: kp_near_def)
  have n2: "kp_scenario ''nose'' = Some (pt 100 100)" by (simp add: kp_scenario_def)
  obtain j1 where j1: "decide kp_near = Inr j1" by (simp add: decide_def n1)
  obtain j2 where j2: "decide kp_scenario = Inr j2" "accepted j2"
    by (simp add: decide_kp_scenario)
  have le: "js_le (minDist kp_near (pt 100 100)) (minDist kp_scenario (pt 100 100))"
    by (simp add: minDist_kp_near minDist_kp_scenario)
  have h: "js_le (Fin 10) (Fin 20)" "js_le (Fin 0) (Fin 20)" by simp_all
  from confidence_monotone[of "Fin 10" "Fin 20" "Fin 20" kp_near "pt 100 100" kp_scenario
      "pt 100 100" j1 j2] h n1 n2 le j1 j2
  show ?thesis by blast
qed

end
